theory Spec2Isabelle
  imports Complex_Main
begin

section \<open>Python values and errors\<close>

text \<open>
  The evaluator of the benchmark toolkit (\<^verbatim>\<open>evaluate_matches.py\<close>) is embedded function
  by function. Python's \<^verbatim>\<open>int\<close> is \<^typ>\<open>int\<close>. A Python \<^verbatim>\<open>float\<close> is the real number
  it stands for. The tempo ratios and tempo products of the length-weighted evaluator,
  which the code rounds to integer lengths, are computed with the rounding of the float
  operations (next section). The scores that stay floats (recall, precision, F-score)
  and the logarithms behind the constants of the tag classifier are computed in the real
  numbers.
  Every exception the embedded code can raise is a value of \<open>py_error\<close>, and a function
  that can raise returns \<open>py_error + 'a\<close>.
\<close>

datatype py_error = ZeroDivisionError | TypeError

datatype pyval = PyNone | PyStr string | PyInt int

text \<open>Sequencing of two computations that can raise: the first error is the result.\<close>

definition bind_res :: "py_error + 'a \<Rightarrow> ('a \<Rightarrow> py_error + 'b) \<Rightarrow> py_error + 'b" where
  "bind_res r f = (case r of Inl e \<Rightarrow> Inl e | Inr x \<Rightarrow> f x)"

text \<open>Python's true division \<^verbatim>\<open>a / b\<close>.\<close>

definition py_div :: "real \<Rightarrow> real \<Rightarrow> py_error + real" where
  "py_div a b = (if b = 0 then Inl ZeroDivisionError else Inr (a / b))"

section \<open>Floating-point arithmetic\<close>

text \<open>
  A Python \<^verbatim>\<open>float\<close> is an IEEE 754 binary64 number, and an arithmetic operation returns
  the exact result rounded to the nearest such number, a tie going to the neighbour
  whose last significand bit is 0. \<open>round_half_even\<close> rounds a real to the nearest integer
  with that tie rule; \<open>fl\<close> rounds a real to 53 significant bits: \<open>ulp\<close> is the distance
  between neighbouring floats in the binade \<open>[2^e, 2^(e+1))\<close> of the argument. The range
  of the exponent is not modelled: a result beyond \<open>1.8e308\<close> (where Python raises
  OverflowError or returns infinity) or below \<open>2.3e-308\<close> in absolute value (where fewer
  bits are kept) is rounded like any other.
\<close>

definition round_half_even :: "real \<Rightarrow> int" where
  "round_half_even y =
     (let f = \<lfloor>y\<rfloor>; d = y - of_int f
      in if d < 1 / 2 then f else if 1 / 2 < d then f + 1 else if even f then f else f + 1)"

definition fl :: "real \<Rightarrow> real" where
  "fl x =
     (if x = 0 then 0
      else let ulp = 2 powr (of_int \<lfloor>log 2 \<bar>x\<bar>\<rfloor> - 52)
           in of_int (round_half_even (x / ulp)) * ulp)"

text \<open>
  The conversion of an \<^verbatim>\<open>int\<close> operand of a float operation, the true division
  \<^verbatim>\<open>a / b\<close> of two \<^verbatim>\<open>int\<close>s (which Python rounds once, from the exact quotient; the
  callers keep \<open>b\<close> away from 0), and the product of two floats.
\<close>

definition float_of_int :: "int \<Rightarrow> real" where
  "float_of_int n = fl (of_int n)"

definition int_true_div :: "int \<Rightarrow> int \<Rightarrow> real" where
  "int_true_div a b = fl (of_int a / of_int b)"

definition fmul :: "real \<Rightarrow> real \<Rightarrow> real" where
  "fmul x y = fl (x * y)"

text \<open>
  A number that is an \<^verbatim>\<open>int\<close> or a \<^verbatim>\<open>float\<close>, and the value of \<^verbatim>\<open>n * tempo\<close> for an
  \<^verbatim>\<open>int\<close> \<open>n\<close>: the exact product when \<open>tempo\<close> is an \<^verbatim>\<open>int\<close>, the float product of the
  converted \<open>n\<close> when it is a \<^verbatim>\<open>float\<close>.
\<close>

datatype pynum = IntNum int | FloatNum real

definition int_times :: "int \<Rightarrow> pynum \<Rightarrow> real" where
  "int_times n tempo =
     (case tempo of
        IntNum k \<Rightarrow> of_int (n * k)
      | FloatNum t \<Rightarrow> fmul (float_of_int n) t)"

section \<open>Reading integer fields\<close>

text \<open>
  A row of the annotation or of the matches file is a Python dictionary from field names
  to values. \<^verbatim>\<open>csv.DictReader\<close> produces strings and \<^verbatim>\<open>None\<close>; integers are kept in the
  value type because \<^verbatim>\<open>get_item_as_int\<close> tests the type of what it finds. Strings are
  byte strings: the digits of the pattern \<^verbatim>\<open>\d\<close> are the ten ASCII digits.
\<close>

type_synonym row = "string \<rightharpoonup> pyval"

text \<open>\<^verbatim>\<open>d.get(key, default)\<close>\<close>

definition dict_get :: "row \<Rightarrow> string \<Rightarrow> pyval \<Rightarrow> pyval" where
  "dict_get d key dflt = (case d key of None \<Rightarrow> dflt | Some v \<Rightarrow> v)"

definition is_digit :: "char \<Rightarrow> bool" where
  "is_digit c = (c \<in> set ''0123456789'')"

definition strip_sign :: "string \<Rightarrow> string" where
  "strip_sign s =
     (case s of [] \<Rightarrow> [] | c # r \<Rightarrow> if c = CHR ''+'' \<or> c = CHR ''-'' then r else s)"

text \<open>
  \<^verbatim>\<open>re.match(r'^[+-]?\d+$', value)\<close>: an optional sign, at least one digit, and then the
  end of the string. Python's \<^verbatim>\<open>$\<close> also matches just before a newline that ends the
  string, so one trailing line feed is accepted.
\<close>

definition re_match_int :: "string \<Rightarrow> bool" where
  "re_match_int value =
     (let body = strip_sign value; rest = dropWhile is_digit body
      in takeWhile is_digit body \<noteq> [] \<and> (rest = [] \<or> rest = [CHR 0x0A]))"

definition digit_value :: "char \<Rightarrow> int" where
  "digit_value c = int (length (takeWhile (\<lambda>d. d \<noteq> c) ''0123456789''))"

definition decimal_value :: "string \<Rightarrow> int" where
  "decimal_value ds = foldl (\<lambda>acc c. 10 * acc + digit_value c) 0 ds"

text \<open>
  \<^verbatim>\<open>int(value)\<close> on a string the pattern has accepted: the sign, the digits, and the
  trailing line feed that \<^verbatim>\<open>int\<close> strips as white space. The interpreter's limit on
  the number of digits of such a string (4300 by default in recent versions) is left out.
\<close>

definition py_int :: "string \<Rightarrow> int" where
  "py_int value =
     (let n = decimal_value (takeWhile is_digit (strip_sign value))
      in if take 1 value = ''-'' then - n else n)"

text \<open>
  \<^verbatim>\<open>get_item_as_int\<close>:
  \<^verbatim>\<open>value = d.get(key, default)\<close>
  \<^verbatim>\<open>value = int(value) if isinstance(value, str) and re.match(r'^[+-]?\d+$', value) else default\<close>
\<close>

definition get_item_as_int :: "row \<Rightarrow> string \<Rightarrow> pyval \<Rightarrow> pyval" where
  "get_item_as_int d key dflt =
     (case dict_get d key dflt of
        PyStr s \<Rightarrow> if re_match_int s then PyInt (py_int s) else dflt
      | _ \<Rightarrow> dflt)"

text \<open>
  Every caller passes an integer default (100 or 0), so what it gets back is an integer;
  \<open>int_item\<close> is \<^verbatim>\<open>get_item_as_int\<close> at such a default, with the integer unwrapped.
\<close>

definition int_item :: "row \<Rightarrow> string \<Rightarrow> int \<Rightarrow> int" where
  "int_item d key dflt =
     (case get_item_as_int d key (PyInt dflt) of PyInt v \<Rightarrow> v | _ \<Rightarrow> dflt)"

text \<open>
  The set of strings the pattern is meant to accept, stated without reference to how the
  match is computed: an optional sign, one or more decimal digits, and optionally the
  line feed that \<^verbatim>\<open>$\<close> tolerates at the very end.
\<close>

definition signed_decimal :: "string \<Rightarrow> bool" where
  "signed_decimal s =
     (\<exists>sign digits nl. s = sign @ digits @ nl
        \<and> sign \<in> {[], ''+'', ''-''} \<and> digits \<noteq> [] \<and> (\<forall>c \<in> set digits. is_digit c)
        \<and> nl \<in> {[], [CHR 0x0A]})"

section \<open>Scores\<close>

text \<open>
  \<^verbatim>\<open>calculate_f_score\<close>:
  \<^verbatim>\<open>return 10 * recall * precision / (9 * recall + precision) if recall + precision > 0 else 0\<close>
\<close>

definition calculate_f_score :: "real \<Rightarrow> real \<Rightarrow> py_error + real" where
  "calculate_f_score recall precision =
     (if recall + precision > 0
      then py_div (10 * recall * precision) (9 * recall + precision)
      else Inr 0)"

section \<open>Result accumulators\<close>

text \<open>
  \<^verbatim>\<open>class RecallPrecisionResults\<close>: the fields \<^verbatim>\<open>_recalls\<close>, \<^verbatim>\<open>_precisions\<close> and
  \<^verbatim>\<open>_tags\<close>. \<^verbatim>\<open>class PositivesNegativesResults\<close> extends it by the four counters.
\<close>

record RecallPrecisionResults =
  m_recalls :: "real list"
  m_precisions :: "real list"
  m_tags :: "string set"

record PositivesNegativesResults = RecallPrecisionResults +
  m_tp :: int
  m_up :: int
  m_fp :: int
  m_fn :: int

text \<open>The two constructors.\<close>

definition RecallPrecisionResults_init :: RecallPrecisionResults where
  "RecallPrecisionResults_init = \<lparr>m_recalls = [], m_precisions = [], m_tags = {}\<rparr>"

definition PositivesNegativesResults_init :: PositivesNegativesResults where
  "PositivesNegativesResults_init =
     \<lparr>m_recalls = [], m_precisions = [], m_tags = {}, m_tp = 0, m_up = 0, m_fp = 0, m_fn = 0\<rparr>"

text \<open>
  \<^verbatim>\<open>RecallPrecisionResults.add\<close>; the subclass reaches it through \<^verbatim>\<open>super().add\<close>, so
  it works on every extension of the record.
\<close>

definition RecallPrecisionResults_add ::
  "real \<Rightarrow> real \<Rightarrow> string set \<Rightarrow> 'a RecallPrecisionResults_scheme \<Rightarrow> 'a RecallPrecisionResults_scheme" where
  "RecallPrecisionResults_add recall precision tags self =
     self\<lparr>m_recalls := m_recalls self @ [recall],
          m_precisions := m_precisions self @ [precision],
          m_tags := m_tags self \<union> tags\<rparr>"

text \<open>
  \<^verbatim>\<open>RecallPrecisionResults.get\<close>:
  \<^verbatim>\<open>recall = sum(self._recalls) / len(self._recalls) if self._recalls else 0\<close>, the same for
  the precision with 1 for the empty list, then the F-score of the two means.
\<close>

definition RecallPrecisionResults_get ::
  "'a RecallPrecisionResults_scheme \<Rightarrow> py_error + (real \<times> real \<times> real)" where
  "RecallPrecisionResults_get self =
     bind_res (if m_recalls self \<noteq> []
               then py_div (sum_list (m_recalls self)) (real (length (m_recalls self)))
               else Inr 0) (\<lambda>recall.
     bind_res (if m_precisions self \<noteq> []
               then py_div (sum_list (m_precisions self)) (real (length (m_precisions self)))
               else Inr 1) (\<lambda>precision.
     bind_res (calculate_f_score recall precision) (\<lambda>f_score.
     Inr (recall, precision, f_score))))"

section \<open>Tag classifier\<close>

text \<open>The field names of \<^verbatim>\<open>fields.py\<close> that the classifier reads.\<close>

definition FIELD_ANNOTATION_TEMPO :: string where "FIELD_ANNOTATION_TEMPO = ''tempo''"
definition FIELD_ANNOTATION_PITCH :: string where "FIELD_ANNOTATION_PITCH = ''pitch''"
definition FIELD_ANNOTATION_ECHO_DELAY :: string where "FIELD_ANNOTATION_ECHO_DELAY = ''echo_delay''"
definition FIELD_ANNOTATION_HIGH_PASS :: string where "FIELD_ANNOTATION_HIGH_PASS = ''high_pass''"
definition FIELD_ANNOTATION_LOW_PASS :: string where "FIELD_ANNOTATION_LOW_PASS = ''low_pass''"
definition FIELD_ANNOTATION_REVERB :: string where "FIELD_ANNOTATION_REVERB = ''reverb''"
definition FIELD_ANNOTATION_NOISE_TYPE :: string where "FIELD_ANNOTATION_NOISE_TYPE = ''noise_type''"
definition FIELD_ANNOTATION_NOISE_COLOR :: string where "FIELD_ANNOTATION_NOISE_COLOR = ''noise_color''"
definition FIELD_ANNOTATION_NOISE_SNR :: string where "FIELD_ANNOTATION_NOISE_SNR = ''noise_snr''"
definition FIELD_ANNOTATION_MERGE_PREV :: string where "FIELD_ANNOTATION_MERGE_PREV = ''merge_prev''"
definition FIELD_ANNOTATION_MERGE_NEXT :: string where "FIELD_ANNOTATION_MERGE_NEXT = ''merge_next''"
definition NOISE_TYPE_SAMPLE :: string where "NOISE_TYPE_SAMPLE = ''sample''"

text \<open>
  \<^verbatim>\<open>util.py\<close>: \<^verbatim>\<open>pitch_scale_to_cents(scale) = 1200 * math.log(scale) / math.log(2)\<close> and
  \<^verbatim>\<open>tempo_scale_to_per_cent(scale) = 100 * scale\<close>. The logarithm is the real one; the
  module only applies it to the four positive thresholds below.
\<close>

definition pitch_scale_to_cents :: "real \<Rightarrow> real" where
  "pitch_scale_to_cents scale = 1200 * ln scale / ln 2"

definition tempo_scale_to_per_cent :: "real \<Rightarrow> real" where
  "tempo_scale_to_per_cent scale = 100 * scale"

text \<open>The module constants, lines 29 to 38 of \<^verbatim>\<open>evaluate_matches.py\<close>.\<close>

definition THRESHOLD_SMALL :: real where
  "THRESHOLD_SMALL = 1 - 0.07"

definition THRESHOLD_MEDIUM :: real where
  "THRESHOLD_MEDIUM = 1 - 0.07 * 3"

definition MIN_PITCH_SMALL :: int where
  "MIN_PITCH_SMALL = \<lceil>pitch_scale_to_cents THRESHOLD_SMALL\<rceil>"

definition MAX_PITCH_SMALL :: int where
  "MAX_PITCH_SMALL = \<lfloor>pitch_scale_to_cents (1 / THRESHOLD_SMALL)\<rfloor>"

definition MIN_PITCH_MEDIUM :: int where
  "MIN_PITCH_MEDIUM = \<lceil>pitch_scale_to_cents THRESHOLD_MEDIUM\<rceil>"

definition MAX_PITCH_MEDIUM :: int where
  "MAX_PITCH_MEDIUM = \<lfloor>pitch_scale_to_cents (1 / THRESHOLD_MEDIUM)\<rfloor>"

definition MIN_TEMPO_SMALL :: int where
  "MIN_TEMPO_SMALL = \<lceil>tempo_scale_to_per_cent THRESHOLD_SMALL\<rceil>"

definition MAX_TEMPO_SMALL :: int where
  "MAX_TEMPO_SMALL = \<lfloor>tempo_scale_to_per_cent (1 / THRESHOLD_SMALL)\<rfloor>"

definition MIN_TEMPO_MEDIUM :: int where
  "MIN_TEMPO_MEDIUM = \<lceil>tempo_scale_to_per_cent THRESHOLD_MEDIUM\<rceil>"

definition MAX_TEMPO_MEDIUM :: int where
  "MAX_TEMPO_MEDIUM = \<lfloor>tempo_scale_to_per_cent (1 / THRESHOLD_MEDIUM)\<rfloor>"

text \<open>
  The first part of \<^verbatim>\<open>get_tags_from_annotation\<close> (lines 144 to 169): the three
  \<^verbatim>\<open>if\<close> statements on tempo and pitch, each appending to the list of tags.
\<close>

definition modification_tags :: "int \<Rightarrow> int \<Rightarrow> string list" where
  "modification_tags tempo pitch =
     (if tempo = 100 then
        (if pitch = 0 then [''pitch:exact'']
         else if MIN_PITCH_SMALL \<le> pitch \<and> pitch \<le> MAX_PITCH_SMALL then [''pitch:small'']
         else if MIN_PITCH_MEDIUM \<le> pitch \<and> pitch \<le> MAX_PITCH_MEDIUM then [''pitch:medium'']
         else [''pitch:large''])
      else [])
     @
     (if pitch = 0 then
        (if tempo = 100 then [''tempo:exact'', ''speed:exact'']
         else if MIN_TEMPO_SMALL \<le> tempo \<and> tempo \<le> MAX_TEMPO_SMALL then [''tempo:small'']
         else if MIN_TEMPO_MEDIUM \<le> tempo \<and> tempo \<le> MAX_TEMPO_MEDIUM then [''tempo:medium'']
         else [''tempo:large''])
      else [])
     @
     (if tempo \<noteq> 100 \<and> pitch \<noteq> 0 then
        (if MIN_TEMPO_SMALL \<le> tempo \<and> tempo \<le> MAX_TEMPO_SMALL then [''speed:small'']
         else if MIN_TEMPO_MEDIUM \<le> tempo \<and> tempo \<le> MAX_TEMPO_MEDIUM then [''speed:medium'']
         else [''speed:large''])
      else [])"

text \<open>Truth value of a Python value, as \<^verbatim>\<open>if x:\<close> and \<^verbatim>\<open>not x\<close> take it.\<close>

definition py_truthy :: "pyval \<Rightarrow> bool" where
  "py_truthy v = (case v of PyNone \<Rightarrow> False | PyStr s \<Rightarrow> s \<noteq> [] | PyInt n \<Rightarrow> n \<noteq> 0)"

text \<open>\<^verbatim>\<open>'prefix' + x\<close>: string concatenation raises TypeError unless \<^verbatim>\<open>x\<close> is a string.\<close>

definition str_concat :: "string \<Rightarrow> pyval \<Rightarrow> py_error + string" where
  "str_concat prefix v = (case v of PyStr s \<Rightarrow> Inr (prefix @ s) | _ \<Rightarrow> Inl TypeError)"

text \<open>\<^verbatim>\<open>str(n)\<close> for an integer, and the text an f-string inserts for a value.\<close>

fun str_of_nat :: "nat \<Rightarrow> string" where
  "str_of_nat n =
     (if n < 10 then [''0123456789'' ! n]
      else str_of_nat (n div 10) @ [''0123456789'' ! (n mod 10)])"

definition str_of_int :: "int \<Rightarrow> string" where
  "str_of_int n = (if n < 0 then ''-'' @ str_of_nat (nat (- n)) else str_of_nat (nat n))"

definition py_format :: "pyval \<Rightarrow> string" where
  "py_format v = (case v of PyNone \<Rightarrow> ''None'' | PyStr s \<Rightarrow> s | PyInt n \<Rightarrow> str_of_int n)"

text \<open>
  Lines 171 to 185: the four flags, each read with default 0 and tagged when non-zero.
\<close>

definition flag_tags :: "row \<Rightarrow> string list" where
  "flag_tags annotation =
     (if int_item annotation FIELD_ANNOTATION_ECHO_DELAY 0 \<noteq> 0 then [''echo''] else [])
     @ (if int_item annotation FIELD_ANNOTATION_HIGH_PASS 0 \<noteq> 0 then [''high-pass''] else [])
     @ (if int_item annotation FIELD_ANNOTATION_LOW_PASS 0 \<noteq> 0 then [''low-pass''] else [])
     @ (if int_item annotation FIELD_ANNOTATION_REVERB 0 \<noteq> 0 then [''reverb''] else [])"

text \<open>Lines 187 to 197: the noise tags.\<close>

definition noise_tags :: "row \<Rightarrow> py_error + string list" where
  "noise_tags annotation =
     (let noise_type = dict_get annotation FIELD_ANNOTATION_NOISE_TYPE (PyStr '''');
          noise_color = dict_get annotation FIELD_ANNOTATION_NOISE_COLOR (PyStr '''');
          noise_snr = dict_get annotation FIELD_ANNOTATION_NOISE_SNR (PyStr '''')
      in bind_res
           (if noise_type = PyStr NOISE_TYPE_SAMPLE then Inr [''noise:sample'']
            else if py_truthy noise_color
            then bind_res (str_concat ''noise:'' noise_color) (\<lambda>t. Inr [t])
            else Inr [''noise:none''])
           (\<lambda>tags. Inr (tags @ (if noise_snr \<noteq> PyStr ''''
                                then [''noise:'' @ py_format noise_snr @ ''dB''] else []))))"

text \<open>Lines 199 to 207: the two merge tags, always present.\<close>

definition merge_tag :: "row \<Rightarrow> string \<Rightarrow> string \<Rightarrow> string \<Rightarrow> py_error + string" where
  "merge_tag annotation field dflt prefix =
     (let merge = dict_get annotation field (PyStr dflt);
          merge = (if \<not> py_truthy merge then PyStr dflt else merge)
      in str_concat prefix merge)"

text \<open>\<^verbatim>\<open>get_tags_from_annotation\<close>: the tags in the order the function appends them.\<close>

definition get_tags_from_annotation :: "row \<Rightarrow> py_error + string list" where
  "get_tags_from_annotation annotation =
     (let tempo = int_item annotation FIELD_ANNOTATION_TEMPO 100;
          pitch = int_item annotation FIELD_ANNOTATION_PITCH 0;
          tags = modification_tags tempo pitch @ flag_tags annotation
      in bind_res (noise_tags annotation) (\<lambda>noise.
         bind_res (merge_tag annotation FIELD_ANNOTATION_MERGE_PREV ''begin'' ''merge_prev:'') (\<lambda>merge_prev.
         bind_res (merge_tag annotation FIELD_ANNOTATION_MERGE_NEXT ''end'' ''merge_next:'') (\<lambda>merge_next.
         Inr (tags @ noise @ [merge_prev, merge_next])))))"

text \<open>
  Every tag that the flags, the noise fields and the merge fields contribute starts with
  one of the letters e, h, l, r, n, m; the pitch, tempo and speed tags start with p, t, s.
\<close>

definition other_tag :: "string \<Rightarrow> bool" where
  "other_tag t = (t \<noteq> [] \<and> hd t \<in> set ''ehlrnm'')"

text \<open>
  A row as \<^verbatim>\<open>csv.DictReader\<close> builds it holds strings, and \<^verbatim>\<open>None\<close> for a column the line
  lacks.
\<close>

definition csv_row :: "row \<Rightarrow> bool" where
  "csv_row r = (\<forall>key v. r key = Some v \<longrightarrow> v = PyNone \<or> (\<exists>s. v = PyStr s))"

section \<open>Intervals\<close>

text \<open>
  Modelled from the spec: the interval type comes from the library \<^verbatim>\<open>portion\<close>, which is
  not part of the repository. Sections 3 and 4.1 of the specification describe it: a value
  is a set of closed-open ranges \<open>[lower, upper)\<close> kept disjoint and merged where they
  touch, a range with \<open>lower \<ge> upper\<close> is empty, and every operation builds its result
  from pieces that are sorted and merged again. The bounds are the integers that
  \<^verbatim>\<open>convert_segment_ranges\<close> reads from the rows.
\<close>

type_synonym atomic = "int \<times> int"

type_synonym interval = "atomic list"

text \<open>\<^verbatim>\<open>portion.empty()\<close>, \<^verbatim>\<open>portion.closedopen(lower, upper)\<close> and the attribute \<^verbatim>\<open>.empty\<close>.\<close>

definition empty_interval :: interval where
  "empty_interval = []"

definition closedopen :: "int \<Rightarrow> int \<Rightarrow> interval" where
  "closedopen lower upper = (if lower < upper then [(lower, upper)] else [])"

definition is_empty :: "interval \<Rightarrow> bool" where
  "is_empty i = (i = [])"

text \<open>
  One range is put into a sorted list of separated ranges; the ranges it overlaps or
  touches are absorbed into it.
\<close>

fun merge_in :: "atomic \<Rightarrow> interval \<Rightarrow> interval" where
  "merge_in (l, u) [] = [(l, u)]"
| "merge_in (l, u) ((l', u') # xs) =
     (if u < l' then (l, u) # (l', u') # xs
      else if u' < l then (l', u') # merge_in (l, u) xs
      else merge_in (min l l', max u u') xs)"

definition normalise :: "atomic list \<Rightarrow> interval" where
  "normalise ps = foldr merge_in (filter (\<lambda>(l, u). l < u) ps) []"

text \<open>The operators \<^verbatim>\<open>|\<close>, \<^verbatim>\<open>&\<close> and \<^verbatim>\<open>-\<close>.\<close>

definition interval_union :: "interval \<Rightarrow> interval \<Rightarrow> interval" where
  "interval_union a b = normalise (a @ b)"

definition interval_inter :: "interval \<Rightarrow> interval \<Rightarrow> interval" where
  "interval_inter a b =
     normalise (concat (map (\<lambda>(l, u). map (\<lambda>(l', u'). (max l l', min u u')) b) a))"

definition sub_atomic :: "atomic \<Rightarrow> atomic \<Rightarrow> atomic list" where
  "sub_atomic gap r = [(fst r, min (snd r) (fst gap)), (max (fst r) (snd gap), snd r)]"

definition interval_diff :: "interval \<Rightarrow> interval \<Rightarrow> interval" where
  "interval_diff a b = fold (\<lambda>gap acc. normalise (concat (map (sub_atomic gap) acc))) b a"

text \<open>
  The invariant of an interval value: every range is non-empty, the ranges are in
  increasing order, and consecutive ranges neither overlap nor touch.
\<close>

fun wf_interval :: "interval \<Rightarrow> bool" where
  "wf_interval [] = True"
| "wf_interval ((l, u) # xs) = (l < u \<and> list_all (\<lambda>(l', u'). u < l') xs \<and> wf_interval xs)"

text \<open>The seconds an interval covers: second \<open>k\<close> stands for the range \<open>[k, k + 1)\<close>.\<close>

definition cells :: "interval \<Rightarrow> int set" where
  "cells i = (\<Union>(l, u) \<in> set i. {l..<u})"

text \<open>
  \<^verbatim>\<open>get_interval_length\<close>:
  \<^verbatim>\<open>return sum([x.upper - x.lower for x in interval if not x.empty])\<close>
\<close>

definition get_interval_length :: "interval \<Rightarrow> int" where
  "get_interval_length interval =
     sum_list (map (\<lambda>(lower, upper). upper - lower) (filter (\<lambda>(lower, upper). lower < upper) interval))"

text \<open>
  \<^verbatim>\<open>round_towards_target\<close>:
  \<^verbatim>\<open>if target > value: return math.ceil(value)\<close>, \<^verbatim>\<open>else: return math.floor(value)\<close>.
  The value is a float or an integer, the target an integer; the comparison and the two
  roundings are exact.
\<close>

definition round_towards_target :: "real \<Rightarrow> real \<Rightarrow> int" where
  "round_towards_target v target = (if target > v then \<lceil>v\<rceil> else \<lfloor>v\<rfloor>)"

section \<open>Segments and the evaluator protocol\<close>

text \<open>
  A segment is a row together with the two intervals that \<^verbatim>\<open>convert_segment_ranges\<close>
  stores in it under \<^verbatim>\<open>FIELD_INTERVAL_REFERENCE\<close> and \<^verbatim>\<open>FIELD_INTERVAL_QUERY\<close>. A pair is
  \<^verbatim>\<open>(query_id, reference_id)\<close>. The two dictionaries that \<^verbatim>\<open>load_annotations_or_matches\<close>
  builds are lists of entries in insertion order, the order in which Python iterates a
  dictionary; their keys are distinct.
\<close>

record segment =
  params :: row
  reference_interval :: interval
  query_interval :: interval

type_synonym pair = "string \<times> string"

type_synonym segments = "(pair \<times> segment list) list"

definition dict_keys :: "segments \<Rightarrow> pair list" where
  "dict_keys d = map fst d"

definition get_or_empty :: "segments \<Rightarrow> pair \<Rightarrow> segment list" where
  "get_or_empty d pair = (case map_of d pair of None \<Rightarrow> [] | Some xs \<Rightarrow> xs)"

text \<open>
  \<^verbatim>\<open>BaseEvaluator.evaluate\<close>. The abstract method \<^verbatim>\<open>_evaluate_pair\<close> is the parameter
  \<open>evaluate_pair\<close>: it changes the state of the evaluator or raises, and an exception
  leaves the loop. First loop:
  \<^verbatim>\<open>for pair in matches:\<close>
  \<^verbatim>\<open>    if pair in annotations: self._evaluate_pair(pair, annotations[pair], matches[pair])\<close>
  \<^verbatim>\<open>    else: self._evaluate_pair(pair, [], matches[pair])\<close>
\<close>

fun evaluate_loop_matches ::
  "(pair \<Rightarrow> segment list \<Rightarrow> segment list \<Rightarrow> 'st \<Rightarrow> py_error + 'st)
     \<Rightarrow> segments \<Rightarrow> segments \<Rightarrow> 'st \<Rightarrow> py_error + 'st" where
  "evaluate_loop_matches evaluate_pair annotations [] self = Inr self"
| "evaluate_loop_matches evaluate_pair annotations ((pair, match) # rest) self =
     bind_res
       (case map_of annotations pair of
          Some annotation \<Rightarrow> evaluate_pair pair annotation match self
        | None \<Rightarrow> evaluate_pair pair [] match self)
       (evaluate_loop_matches evaluate_pair annotations rest)"

text \<open>
  Second loop:
  \<^verbatim>\<open>for pair in annotations:\<close>
  \<^verbatim>\<open>    if pair not in matches: self._evaluate_pair(pair, annotations[pair], [])\<close>
\<close>

fun evaluate_loop_annotations ::
  "(pair \<Rightarrow> segment list \<Rightarrow> segment list \<Rightarrow> 'st \<Rightarrow> py_error + 'st)
     \<Rightarrow> segments \<Rightarrow> segments \<Rightarrow> 'st \<Rightarrow> py_error + 'st" where
  "evaluate_loop_annotations evaluate_pair matches [] self = Inr self"
| "evaluate_loop_annotations evaluate_pair matches ((pair, annotation) # rest) self =
     bind_res
       (if pair \<notin> set (dict_keys matches) then evaluate_pair pair annotation [] self
        else Inr self)
       (evaluate_loop_annotations evaluate_pair matches rest)"

definition evaluate ::
  "(pair \<Rightarrow> segment list \<Rightarrow> segment list \<Rightarrow> 'st \<Rightarrow> py_error + 'st)
     \<Rightarrow> segments \<Rightarrow> segments \<Rightarrow> 'st \<Rightarrow> py_error + 'st" where
  "evaluate evaluate_pair annotations matches self =
     bind_res (evaluate_loop_matches evaluate_pair annotations matches self)
       (evaluate_loop_annotations evaluate_pair matches annotations)"

text \<open>
  A scorer that only records its arguments, and the run of a list of recorded calls: the
  two let a theorem speak about which calls \<^verbatim>\<open>evaluate\<close> makes, whatever the scorer.
\<close>

definition record_call ::
  "pair \<Rightarrow> segment list \<Rightarrow> segment list \<Rightarrow> (pair \<times> segment list \<times> segment list) list
     \<Rightarrow> py_error + (pair \<times> segment list \<times> segment list) list" where
  "record_call pair annotation match trace = Inr (trace @ [(pair, annotation, match)])"

fun run_calls ::
  "(pair \<Rightarrow> segment list \<Rightarrow> segment list \<Rightarrow> 'st \<Rightarrow> py_error + 'st)
     \<Rightarrow> (pair \<times> segment list \<times> segment list) list \<Rightarrow> 'st \<Rightarrow> py_error + 'st" where
  "run_calls evaluate_pair [] self = Inr self"
| "run_calls evaluate_pair ((pair, annotation, match) # calls) self =
     bind_res (evaluate_pair pair annotation match self) (run_calls evaluate_pair calls)"

text \<open>
  The calls that the protocol asks for, in the order of the two loops: one call for every
  key of \<open>matches\<close>, then one for every key of \<open>annotations\<close> that \<open>matches\<close> lacks, each
  with the two lists of the pair and the empty list for a side without the key.
\<close>

definition evaluate_calls :: "segments \<Rightarrow> segments \<Rightarrow> (pair \<times> segment list \<times> segment list) list" where
  "evaluate_calls annotations matches =
     map (\<lambda>(pair, match). (pair, get_or_empty annotations pair, match)) matches
     @ map (\<lambda>(pair, annotation). (pair, annotation, []))
         (filter (\<lambda>(pair, annotation). pair \<notin> set (dict_keys matches)) annotations)"

section \<open>The four result tables\<close>

text \<open>
  Each evaluator owns \<^verbatim>\<open>_pair_results\<close>, \<^verbatim>\<open>_ref_results\<close>, \<^verbatim>\<open>_tag_results\<close> (three
  \<^verbatim>\<open>defaultdict\<close>s of accumulators) and \<^verbatim>\<open>_all_results\<close>. Reading a missing key of a
  \<^verbatim>\<open>defaultdict\<close> creates the accumulator.
\<close>

record 'r evaluator =
  pair_results :: "pair \<rightharpoonup> 'r"
  ref_results :: "string \<rightharpoonup> 'r"
  tag_results :: "string \<rightharpoonup> 'r"
  all_results :: 'r

definition evaluator_init :: "'r \<Rightarrow> 'r evaluator" where
  "evaluator_init new =
     \<lparr>pair_results = Map.empty, ref_results = Map.empty, tag_results = Map.empty,
      all_results = new\<rparr>"

definition dd_get :: "'r \<Rightarrow> ('k \<rightharpoonup> 'r) \<Rightarrow> 'k \<Rightarrow> 'r" where
  "dd_get new table key = (case table key of None \<Rightarrow> new | Some r \<Rightarrow> r)"

text \<open>
  \<^verbatim>\<open>PositivesNegativesResults.add\<close>. Each of the two divisions stands under a guard that
  makes its denominator positive.
\<close>

definition PositivesNegativesResults_add ::
  "int \<Rightarrow> int \<Rightarrow> int \<Rightarrow> int \<Rightarrow> string set \<Rightarrow> PositivesNegativesResults
     \<Rightarrow> PositivesNegativesResults" where
  "PositivesNegativesResults_add tp up fp fn tags self =
     (let recall = (if tp + fn > 0 then real_of_int tp / real_of_int (tp + fn) else 0);
          precision = (if tp + fp > 0 then real_of_int tp / real_of_int (tp + fp) else 1);
          self = RecallPrecisionResults_add recall precision tags self
      in self\<lparr>m_tp := m_tp self + tp, m_up := m_up self + up,
               m_fp := m_fp self + fp, m_fn := m_fn self + fn\<rparr>)"

text \<open>
  The last lines of every \<^verbatim>\<open>_evaluate_pair\<close> store the scores of the pair. \<open>add\<close> is the
  accumulator's \<^verbatim>\<open>add\<close> with the scores already supplied, so that only the tags remain;
  \<open>new\<close> is the accumulator a \<^verbatim>\<open>defaultdict\<close> creates. The inner loop
  \<^verbatim>\<open>for tag in get_tags_from_annotation(annotation[a]): self._tag_results[tag].add(..., {tag})\<close>:
\<close>

definition add_to_tags ::
  "(string set \<Rightarrow> 'r \<Rightarrow> 'r) \<Rightarrow> 'r \<Rightarrow> string list \<Rightarrow> (string \<rightharpoonup> 'r) \<Rightarrow> (string \<rightharpoonup> 'r)" where
  "add_to_tags add new tags table =
     fold (\<lambda>tag t. t(tag \<mapsto> add {tag} (dd_get new t tag))) tags table"

text \<open>The outer loop \<^verbatim>\<open>for a in range(len(annotation))\<close>, which visits every segment in turn.\<close>

fun tag_loop ::
  "(string set \<Rightarrow> 'r \<Rightarrow> 'r) \<Rightarrow> 'r \<Rightarrow> segment list \<Rightarrow> (string \<rightharpoonup> 'r)
     \<Rightarrow> py_error + (string \<rightharpoonup> 'r)" where
  "tag_loop add new [] table = Inr table"
| "tag_loop add new (a # annotation) table =
     bind_res (get_tags_from_annotation (params a))
       (\<lambda>tags. tag_loop add new annotation (add_to_tags add new tags table))"

text \<open>
  \<^verbatim>\<open>self._pair_results[pair].add(..., get_tags_from_annotation(annotation[0]) if annotation else [])\<close>
  \<^verbatim>\<open>self._ref_results[pair[1]].add(...)\<close>, with the default \<^verbatim>\<open>tags=set()\<close>, then the loop over
  the tags, then \<^verbatim>\<open>self._all_results.add(..., {'TOTAL'})\<close>.
\<close>

definition store_results ::
  "(string set \<Rightarrow> 'r \<Rightarrow> 'r) \<Rightarrow> 'r \<Rightarrow> pair \<Rightarrow> segment list \<Rightarrow> 'r evaluator
     \<Rightarrow> py_error + 'r evaluator" where
  "store_results add new pair annotation self =
     bind_res (case annotation of [] \<Rightarrow> Inr [] | a # _ \<Rightarrow> get_tags_from_annotation (params a))
       (\<lambda>pair_tags.
     bind_res (tag_loop add new annotation (tag_results self))
       (\<lambda>table.
     Inr (self\<lparr>pair_results := (pair_results self)
                  (pair \<mapsto> add (set pair_tags) (dd_get new (pair_results self) pair)),
               ref_results := (ref_results self)
                  (snd pair \<mapsto> add {} (dd_get new (ref_results self) (snd pair))),
               tag_results := table,
               all_results := add {''TOTAL''} (all_results self)\<rparr>)))"

section \<open>Track-level evaluator\<close>

text \<open>
  \<^verbatim>\<open>TrackEvaluator._evaluate_pair\<close>, lines 459 to 465: \<^verbatim>\<open>bool\<close> of a list is its
  non-emptiness and \<^verbatim>\<open>int\<close> of a truth value is 0 or 1.
\<close>

definition TrackEvaluator_counts :: "segment list \<Rightarrow> segment list \<Rightarrow> int \<times> int \<times> int \<times> int" where
  "TrackEvaluator_counts annotation match =
     (let b_annotation = (annotation \<noteq> []);
          b_match = (match \<noteq> []);
          tp = (if b_annotation \<and> b_match then 1 else 0);
          fn = (if b_annotation \<and> \<not> b_match then 1 else 0);
          fp = (if \<not> b_annotation \<and> b_match then 1 else 0);
          up = 0
      in (tp, up, fp, fn))"

definition TrackEvaluator_evaluate_pair ::
  "pair \<Rightarrow> segment list \<Rightarrow> segment list \<Rightarrow> PositivesNegativesResults evaluator
     \<Rightarrow> py_error + PositivesNegativesResults evaluator" where
  "TrackEvaluator_evaluate_pair pair annotation match self =
     (case TrackEvaluator_counts annotation match of
        (tp, up, fp, fn) \<Rightarrow>
          store_results (PositivesNegativesResults_add tp up fp fn)
            PositivesNegativesResults_init pair annotation self)"

definition TrackEvaluator_init :: "PositivesNegativesResults evaluator" where
  "TrackEvaluator_init = evaluator_init PositivesNegativesResults_init"

text \<open>
  What the tables of a track-level evaluator hold after the calls \<open>calls\<close>, when no pair
  occurs twice among them: the pair table has the counts of each call under its pair, the
  reference table has the reference identifiers, the tag table only tags of annotation
  segments of the calls, and the global table has the sums.
\<close>

definition track_invariant ::
  "(pair \<times> segment list \<times> segment list) list \<Rightarrow> PositivesNegativesResults evaluator \<Rightarrow> bool" where
  "track_invariant calls self =
     (dom (pair_results self) = fst ` set calls
      \<and> dom (ref_results self) = (\<lambda>c. snd (fst c)) ` set calls
      \<and> dom (tag_results self) \<subseteq>
          {tag. \<exists>c \<in> set calls. \<exists>a tags. a \<in> set (fst (snd c))
                  \<and> get_tags_from_annotation (params a) = Inr tags \<and> tag \<in> set tags}
      \<and> (\<forall>c \<in> set calls. \<exists>r. pair_results self (fst c) = Some r
            \<and> (m_tp r, m_up r, m_fp r, m_fn r) = TrackEvaluator_counts (fst (snd c)) (snd (snd c)))
      \<and> m_tp (all_results self) =
          sum_list (map (\<lambda>c. fst (TrackEvaluator_counts (fst (snd c)) (snd (snd c)))) calls)
      \<and> m_up (all_results self) = 0
      \<and> m_fp (all_results self) =
          sum_list (map (\<lambda>c. fst (snd (snd (TrackEvaluator_counts (fst (snd c)) (snd (snd c)))))) calls)
      \<and> m_fn (all_results self) =
          sum_list (map (\<lambda>c. snd (snd (snd (TrackEvaluator_counts (fst (snd c)) (snd (snd c)))))) calls)
      \<and> length (m_recalls (all_results self)) = length calls)"

section \<open>Segment-level evaluators\<close>

text \<open>
  Both segment-level evaluators start from the matrix
  \<^verbatim>\<open>overlaps = [[(a[REFERENCE] & m[REFERENCE], a[QUERY] & m[QUERY]) for a in annotation] for m in match]\<close>
  and read it as \<^verbatim>\<open>overlaps[m][a]\<close> with \<^verbatim>\<open>m\<close> and \<^verbatim>\<open>a\<close> running over
  \<^verbatim>\<open>range(len(match))\<close> and \<^verbatim>\<open>range(len(annotation))\<close>.
\<close>

definition overlap :: "segment \<Rightarrow> segment \<Rightarrow> interval \<times> interval" where
  "overlap a m =
     (interval_inter (reference_interval a) (reference_interval m),
      interval_inter (query_interval a) (query_interval m))"

definition overlaps :: "segment list \<Rightarrow> segment list \<Rightarrow> (interval \<times> interval) list list" where
  "overlaps annotation match = map (\<lambda>m. map (\<lambda>a. overlap a m) annotation) match"

text \<open>
  The body of the inner loops of the recall, precision and true-positive passes:
  \<^verbatim>\<open>if not overlaps[m][a][0].empty and not overlaps[m][a][1].empty:\<close>
  \<^verbatim>\<open>    overlap_reference_union |= overlaps[m][a][0]\<close>
  \<^verbatim>\<open>    overlap_query_union |= overlaps[m][a][1]\<close>
\<close>

definition add_double_overlap :: "interval \<times> interval \<Rightarrow> interval \<times> interval \<Rightarrow> interval \<times> interval" where
  "add_double_overlap ov unions =
     (if \<not> is_empty (fst ov) \<and> \<not> is_empty (snd ov)
      then (interval_union (fst unions) (fst ov), interval_union (snd unions) (snd ov))
      else unions)"

text \<open>
  For one annotation index \<open>a\<close>, the loop \<^verbatim>\<open>for m in range(len(match))\<close> from the two
  empty unions; for one match index \<open>m\<close>, the loop \<^verbatim>\<open>for a in range(len(annotation))\<close>.
\<close>

definition column_unions :: "(interval \<times> interval) list list \<Rightarrow> nat \<Rightarrow> nat \<Rightarrow> interval \<times> interval" where
  "column_unions ovs n_match a =
     fold (\<lambda>m. add_double_overlap (ovs ! m ! a)) [0..<n_match] (empty_interval, empty_interval)"

definition row_unions :: "(interval \<times> interval) list list \<Rightarrow> nat \<Rightarrow> nat \<Rightarrow> interval \<times> interval" where
  "row_unions ovs n_annotation m =
     fold (\<lambda>a. add_double_overlap (ovs ! m ! a)) [0..<n_annotation] (empty_interval, empty_interval)"

text \<open>
  The ratio \<^verbatim>\<open>x / y if y else d\<close> of two lengths: the guard keeps the division away from
  a zero denominator.
\<close>

definition ratio_or :: "real \<Rightarrow> int \<Rightarrow> int \<Rightarrow> real" where
  "ratio_or d x y = (if y \<noteq> 0 then real_of_int x / real_of_int y else d)"

text \<open>
  \<^verbatim>\<open>BoundingBoxSegmentEvaluator._evaluate_pair\<close>, lines 502 to 553: the recall and the
  precision of a pair. The running sums \<^verbatim>\<open>overlap_reference_length += ...\<close> and
  \<^verbatim>\<open>overlap_query_length += ...\<close> are the sums over the indices.
\<close>

definition bounding_box_scores :: "segment list \<Rightarrow> segment list \<Rightarrow> real \<times> real" where
  "bounding_box_scores annotation match =
     (let ovs = overlaps annotation match;
          per_annotation = map (column_unions ovs (length match)) [0..<length annotation];
          overlap_reference_length = sum_list (map (\<lambda>u. get_interval_length (fst u)) per_annotation);
          overlap_query_length = sum_list (map (\<lambda>u. get_interval_length (snd u)) per_annotation);
          annotation_reference_length =
            sum_list (map (\<lambda>x. get_interval_length (reference_interval x)) annotation);
          annotation_query_length =
            sum_list (map (\<lambda>x. get_interval_length (query_interval x)) annotation);
          recall = 1 * ratio_or 0 overlap_reference_length annotation_reference_length
                     * ratio_or 0 overlap_query_length annotation_query_length;
          per_match = map (row_unions ovs (length annotation)) [0..<length match];
          overlap_reference_length = sum_list (map (\<lambda>u. get_interval_length (fst u)) per_match);
          overlap_query_length = sum_list (map (\<lambda>u. get_interval_length (snd u)) per_match);
          match_reference_length =
            sum_list (map (\<lambda>x. get_interval_length (reference_interval x)) match);
          match_query_length =
            sum_list (map (\<lambda>x. get_interval_length (query_interval x)) match);
          precision = 1 * ratio_or 1 overlap_reference_length match_reference_length
                        * ratio_or 1 overlap_query_length match_query_length
      in (recall, precision))"

definition BoundingBoxSegmentEvaluator_evaluate_pair ::
  "pair \<Rightarrow> segment list \<Rightarrow> segment list \<Rightarrow> RecallPrecisionResults evaluator
     \<Rightarrow> py_error + RecallPrecisionResults evaluator" where
  "BoundingBoxSegmentEvaluator_evaluate_pair pair annotation match self =
     (case bounding_box_scores annotation match of
        (recall, precision) \<Rightarrow>
          store_results (RecallPrecisionResults_add recall precision)
            RecallPrecisionResults_init pair annotation self)"

text \<open>
  \<^verbatim>\<open>LengthSegmentEvaluator._evaluate_pair\<close>. The tempo ratio of an annotation segment, a
  float: \<^verbatim>\<open>get_item_as_int(annotation[a], FIELD_ANNOTATION_TEMPO, 100) / 100\<close>.
\<close>

definition tempo_ratio :: "segment \<Rightarrow> real" where
  "tempo_ratio a = int_true_div (int_item (params a) FIELD_ANNOTATION_TEMPO 100) 100"

text \<open>
  Lines 611 to 623, after the inner loop has produced the two unions of annotation
  segment \<open>a\<close>: its true-positive and its false-negative length. The two products
  \<^verbatim>\<open>get_interval_length(...) * tempo\<close> are float products of an \<^verbatim>\<open>int\<close> and a float.
\<close>

definition annotation_pass :: "segment \<Rightarrow> interval \<times> interval \<Rightarrow> int \<times> int" where
  "annotation_pass a unions =
     (let tempo = tempo_ratio a;
          overlap_reference_union = fst unions;
          overlap_query_union = snd unions;
          annotation_reference_length = get_interval_length (reference_interval a);
          overlap_reference_length = get_interval_length overlap_reference_union;
          overlap_query_length =
            round_towards_target
              (fmul (float_of_int (get_interval_length overlap_query_union)) tempo)
              (real_of_int annotation_reference_length);
          overlap_length = min overlap_reference_length overlap_query_length;
          missing_reference_union = interval_diff (reference_interval a) overlap_reference_union;
          missing_query_union = interval_diff (query_interval a) overlap_query_union;
          missing_reference_length = get_interval_length missing_reference_union;
          missing_query_length =
            round_towards_target
              (fmul (float_of_int (get_interval_length missing_query_union)) tempo) 0;
          missing_length = max missing_reference_length missing_query_length
      in (overlap_length, missing_length))"

text \<open>
  The inner loop of the second pass, lines 642 to 648, for one match segment. Its state is
  the tempo, the reference union and the query-only union. The truth value of an interval
  in \<^verbatim>\<open>if overlaps[m][a][1]:\<close> is its non-emptiness. The tempo starts as the float
  \<^verbatim>\<open>match_reference_length / match_query_length\<close> or as the integer 1, and the loop
  replaces it by the float of an annotation segment.
\<close>

definition match_step ::
  "segment \<Rightarrow> interval \<times> interval \<Rightarrow> pynum \<times> interval \<times> interval
     \<Rightarrow> pynum \<times> interval \<times> interval" where
  "match_step a ov state =
     (case state of (tempo, overlap_reference_union, overlap_query_only_union) \<Rightarrow>
        (if \<not> is_empty (snd ov) then FloatNum (tempo_ratio a) else tempo,
         if \<not> is_empty (fst ov) \<and> \<not> is_empty (snd ov)
         then interval_union overlap_reference_union (fst ov) else overlap_reference_union,
         interval_union overlap_query_only_union (snd ov)))"

definition match_loop ::
  "segment list \<Rightarrow> (interval \<times> interval) list list \<Rightarrow> nat \<Rightarrow> pynum
     \<Rightarrow> pynum \<times> interval \<times> interval" where
  "match_loop annotation ovs m tempo =
     fold (\<lambda>a. match_step (annotation ! a) (ovs ! m ! a)) [0..<length annotation]
       (tempo, empty_interval, empty_interval)"

text \<open>
  Lines 636 to 663 for match segment \<open>m\<close>: its unknown-positive and its false-positive
  length.
\<close>

definition match_pass ::
  "segment list \<Rightarrow> (interval \<times> interval) list list \<Rightarrow> segment list \<Rightarrow> nat \<Rightarrow> int \<times> int" where
  "match_pass annotation ovs match m =
     (let match_reference_length = get_interval_length (reference_interval (match ! m));
          match_query_length = get_interval_length (query_interval (match ! m));
          tempo = (if match_query_length \<noteq> 0
                   then FloatNum (int_true_div match_reference_length match_query_length)
                   else IntNum 1)
      in case match_loop annotation ovs m tempo of
           (tempo, overlap_reference_union, overlap_query_only_union) \<Rightarrow>
        (let overlap_reference_length = get_interval_length overlap_reference_union;
             overlap_query_only_length =
               round_towards_target
                 (int_times (get_interval_length overlap_query_only_union) tempo)
                 (real_of_int match_reference_length);
             overlap_length = max overlap_reference_length overlap_query_only_length;
             unknown_length = \<bar>overlap_reference_length - overlap_query_only_length\<bar>;
             surplus_reference_length = max 0 (match_reference_length - overlap_length);
             surplus_query_length =
               round_towards_target (int_times match_query_length tempo)
                 (real_of_int match_reference_length) - overlap_query_only_length;
             surplus_length = max surplus_reference_length surplus_query_length
         in (unknown_length, surplus_length)))"

text \<open>The four sums \<^verbatim>\<open>tp\<close>, \<^verbatim>\<open>up\<close>, \<^verbatim>\<open>fp\<close>, \<^verbatim>\<open>fn\<close> of a pair.\<close>

definition LengthSegmentEvaluator_counts ::
  "segment list \<Rightarrow> segment list \<Rightarrow> int \<times> int \<times> int \<times> int" where
  "LengthSegmentEvaluator_counts annotation match =
     (let ovs = overlaps annotation match;
          per_annotation =
            map (\<lambda>a. annotation_pass (annotation ! a) (column_unions ovs (length match) a))
              [0..<length annotation];
          tp = sum_list (map fst per_annotation);
          fn = sum_list (map snd per_annotation);
          per_match = map (match_pass annotation ovs match) [0..<length match];
          up = sum_list (map fst per_match);
          fp = sum_list (map snd per_match)
      in (tp, up, fp, fn))"

definition LengthSegmentEvaluator_evaluate_pair ::
  "pair \<Rightarrow> segment list \<Rightarrow> segment list \<Rightarrow> PositivesNegativesResults evaluator
     \<Rightarrow> py_error + PositivesNegativesResults evaluator" where
  "LengthSegmentEvaluator_evaluate_pair pair annotation match self =
     (case LengthSegmentEvaluator_counts annotation match of
        (tp, up, fp, fn) \<Rightarrow>
          store_results (PositivesNegativesResults_add tp up fp fn)
            PositivesNegativesResults_init pair annotation self)"

text \<open>
  A segment is valid when its two intervals satisfy the invariant of interval values, as
  the intervals that \<^verbatim>\<open>portion.closedopen\<close> builds do. An annotation segment and a match
  segment overlap doubly when they share seconds on the reference axis and on the query
  axis.
\<close>

definition valid_segment :: "segment \<Rightarrow> bool" where
  "valid_segment s = (wf_interval (reference_interval s) \<and> wf_interval (query_interval s))"

definition double_overlap :: "segment \<Rightarrow> segment \<Rightarrow> bool" where
  "double_overlap a m =
     (cells (reference_interval a) \<inter> cells (reference_interval m) \<noteq> {}
      \<and> cells (query_interval a) \<inter> cells (query_interval m) \<noteq> {})"

text \<open>
  The annotation segments whose query interval shares seconds with the query interval of
  a match segment, in the order of the annotation list.
\<close>

definition query_overlapping :: "segment list \<Rightarrow> segment \<Rightarrow> segment list" where
  "query_overlapping annotation m =
     filter (\<lambda>a. cells (query_interval a) \<inter> cells (query_interval m) \<noteq> {}) annotation"

section \<open>Example segments\<close>

text \<open>
  Section 8 of the specification gives a concrete segment: reference \<open>[10, 20)\<close>, query
  \<open>[0, 10)\<close>, tempo 100. It serves as the input of the worked instances below.
\<close>

definition scenario_segment :: segment where
  "scenario_segment =
     \<lparr>params = [''tempo'' \<mapsto> PyStr ''100''],
      reference_interval = closedopen 10 20,
      query_interval = closedopen 0 10\<rparr>"

text \<open>
  An annotation segment whose query interval is ten times as long as its reference
  interval, at the default tempo: reference \<open>[0, 10)\<close>, query \<open>[0, 100)\<close>.
\<close>

definition stretched_segment :: segment where
  "stretched_segment =
     \<lparr>params = Map.empty,
      reference_interval = closedopen 0 10,
      query_interval = closedopen 0 100\<rparr>"

text \<open>
  An annotation segment at half tempo, reference \<open>[0, 10)\<close> and query \<open>[0, 20)\<close>, and a
  match segment with reference \<open>[5, 12)\<close> and query \<open>[9, 30)\<close> that overlaps it on both
  axes.
\<close>

definition half_tempo_segment :: segment where
  "half_tempo_segment =
     \<lparr>params = [''tempo'' \<mapsto> PyStr ''50''],
      reference_interval = closedopen 0 10,
      query_interval = closedopen 0 20\<rparr>"

definition late_match_segment :: segment where
  "late_match_segment =
     \<lparr>params = Map.empty,
      reference_interval = closedopen 5 12,
      query_interval = closedopen 9 30\<rparr>"

text \<open>
  An annotation segment at tempo 110, reference \<open>[0, 131)\<close> and query \<open>[0, 120)\<close>, and a
  match segment with reference \<open>[0, 56)\<close> and query \<open>[0, 50)\<close>. The float \<^verbatim>\<open>110 / 100\<close> is
  slightly above \<open>1.1\<close>, and the float product \<^verbatim>\<open>50 * 1.1\<close> is \<open>55.00000000000001\<close>.
\<close>

definition fast_segment :: segment where
  "fast_segment =
     \<lparr>params = [''tempo'' \<mapsto> PyStr ''110''],
      reference_interval = closedopen 0 131,
      query_interval = closedopen 0 120\<rparr>"

definition partial_match_segment :: segment where
  "partial_match_segment =
     \<lparr>params = Map.empty,
      reference_interval = closedopen 0 56,
      query_interval = closedopen 0 50\<rparr>"

section \<open>Accumulators as objects with shared tag collections\<close>

text \<open>
  Both \<^verbatim>\<open>add\<close> methods declare \<^verbatim>\<open>tags=set()\<close>. Python evaluates a default once, when the
  function is defined, so each method owns one set object that every call without the
  argument receives. Whether a call can change that object is a question about aliasing,
  and the accumulators are modelled once more with references: the store maps addresses
  to collections and to accumulator objects, and \<^verbatim>\<open>_tags\<close> is the address of the set that
  \<^verbatim>\<open>__init__\<close> creates. A result \<open>None\<close> stands for what no Python program does: a
  reference to nothing, \<^verbatim>\<open>update\<close> on an object that is not a set, the subclass method on
  an object of the base class.
\<close>

datatype collection = SetObj "string set" | ListObj "string list"

definition elements :: "collection \<Rightarrow> string set" where
  "elements c = (case c of SetObj s \<Rightarrow> s | ListObj xs \<Rightarrow> set xs)"

record accumulator =
  a_recalls :: "real list"
  a_precisions :: "real list"
  a_tags :: nat
  a_counts :: "(int \<times> int \<times> int \<times> int) option"

record store =
  collections :: "nat \<rightharpoonup> collection"
  accumulators :: "nat \<rightharpoonup> accumulator"
  fresh :: nat

text \<open>
  The store after the module is loaded: the default of \<^verbatim>\<open>RecallPrecisionResults.add\<close> at
  address 0 and the default of \<^verbatim>\<open>PositivesNegativesResults.add\<close> at address 1.
\<close>

definition DEFAULT_TAGS_RP :: nat where
  "DEFAULT_TAGS_RP = 0"

definition DEFAULT_TAGS_PN :: nat where
  "DEFAULT_TAGS_PN = 1"

definition module_store :: store where
  "module_store =
     \<lparr>collections = [DEFAULT_TAGS_RP \<mapsto> SetObj {}, DEFAULT_TAGS_PN \<mapsto> SetObj {}],
      accumulators = Map.empty,
      fresh = 2\<rparr>"

text \<open>
  A collection built by the caller (\<^verbatim>\<open>{tag}\<close>, \<^verbatim>\<open>{'TOTAL'}\<close>, the list of tags), and the two
  constructors: \<^verbatim>\<open>self._tags = set()\<close> is a new set object.
\<close>

definition new_collection :: "collection \<Rightarrow> store \<Rightarrow> store" where
  "new_collection c s =
     s\<lparr>collections := (collections s)(fresh s \<mapsto> c), fresh := Suc (fresh s)\<rparr>"

definition new_accumulator :: "(int \<times> int \<times> int \<times> int) option \<Rightarrow> store \<Rightarrow> store" where
  "new_accumulator counts s =
     s\<lparr>collections := (collections s)(fresh s \<mapsto> SetObj {}),
       accumulators := (accumulators s)(Suc (fresh s) \<mapsto>
          \<lparr>a_recalls = [], a_precisions = [], a_tags = fresh s, a_counts = counts\<rparr>),
       fresh := Suc (Suc (fresh s))\<rparr>"

text \<open>
  \<^verbatim>\<open>RecallPrecisionResults.add(self, recall, precision, tags)\<close> with \<open>tags\<close> the address of
  the argument: two appends and \<^verbatim>\<open>self._tags.update(tags)\<close>, which reads the argument and
  writes the set of the accumulator.
\<close>

definition RecallPrecisionResults_add_obj :: "nat \<Rightarrow> real \<Rightarrow> real \<Rightarrow> nat \<Rightarrow> store \<Rightarrow> store option" where
  "RecallPrecisionResults_add_obj self recall precision tags s =
     (case accumulators s self of
        None \<Rightarrow> None
      | Some acc \<Rightarrow>
         (case (collections s (a_tags acc), collections s tags) of
            (Some (SetObj own), Some arg) \<Rightarrow>
              Some (s\<lparr>accumulators := (accumulators s)(self \<mapsto>
                          acc\<lparr>a_recalls := a_recalls acc @ [recall],
                              a_precisions := a_precisions acc @ [precision]\<rparr>),
                       collections := (collections s)(a_tags acc \<mapsto> SetObj (own \<union> elements arg))\<rparr>)
          | _ \<Rightarrow> None))"

text \<open>
  \<^verbatim>\<open>PositivesNegativesResults.add(self, tp, up, fp, fn, tags)\<close>: it hands its own \<open>tags\<close> on
  to \<^verbatim>\<open>super().add\<close> and then adds to the four counters.
\<close>

definition PositivesNegativesResults_add_obj ::
  "nat \<Rightarrow> int \<Rightarrow> int \<Rightarrow> int \<Rightarrow> int \<Rightarrow> nat \<Rightarrow> store \<Rightarrow> store option" where
  "PositivesNegativesResults_add_obj self tp up fp fn tags s =
     (let recall = (if tp + fn > 0 then real_of_int tp / real_of_int (tp + fn) else 0);
          precision = (if tp + fp > 0 then real_of_int tp / real_of_int (tp + fp) else 1)
      in case RecallPrecisionResults_add_obj self recall precision tags s of
           None \<Rightarrow> None
         | Some s' \<Rightarrow>
            (case accumulators s' self of
               None \<Rightarrow> None
             | Some acc \<Rightarrow>
                (case a_counts acc of
                   None \<Rightarrow> None
                 | Some (tp0, up0, fp0, fn0) \<Rightarrow>
                     Some (s'\<lparr>accumulators := (accumulators s')(self \<mapsto>
                        acc\<lparr>a_counts := Some (tp0 + tp, up0 + up, fp0 + fp, fn0 + fn)\<rparr>)\<rparr>))))"

text \<open>
  The statements a program can make on accumulators, and their effect in sequence. An
  \<^verbatim>\<open>add\<close> names the argument by its address or leaves it out, and then the method's own
  default object is the argument.
\<close>

datatype statement =
    NewCollection collection
  | NewRecallPrecisionResults
  | NewPositivesNegativesResults
  | AddRP nat real real "nat option"
  | AddPN nat int int int int "nat option"

fun execute :: "statement \<Rightarrow> store \<Rightarrow> store option" where
  "execute (NewCollection c) s = Some (new_collection c s)"
| "execute NewRecallPrecisionResults s = Some (new_accumulator None s)"
| "execute NewPositivesNegativesResults s = Some (new_accumulator (Some (0, 0, 0, 0)) s)"
| "execute (AddRP self recall precision tags) s =
     RecallPrecisionResults_add_obj self recall precision
       (case tags of None \<Rightarrow> DEFAULT_TAGS_RP | Some t \<Rightarrow> t) s"
| "execute (AddPN self tp up fp fn tags) s =
     PositivesNegativesResults_add_obj self tp up fp fn
       (case tags of None \<Rightarrow> DEFAULT_TAGS_PN | Some t \<Rightarrow> t) s"

fun execute_all :: "statement list \<Rightarrow> store \<Rightarrow> store option" where
  "execute_all [] s = Some s"
| "execute_all (x # xs) s = (case execute x s of None \<Rightarrow> None | Some s' \<Rightarrow> execute_all xs s')"

text \<open>
  What holds of every store a program reaches from the loaded module: the two default
  objects are empty sets, no accumulator has one of them as its \<^verbatim>\<open>_tags\<close>, and every
  address in use is below the next fresh one.
\<close>

definition store_invariant :: "store \<Rightarrow> bool" where
  "store_invariant s =
     (collections s DEFAULT_TAGS_RP = Some (SetObj {})
      \<and> collections s DEFAULT_TAGS_PN = Some (SetObj {})
      \<and> 2 \<le> fresh s
      \<and> (\<forall>i acc. accumulators s i = Some acc \<longrightarrow> 2 \<le> a_tags acc \<and> a_tags acc < fresh s))"

text \<open>The accumulator object at an address, read as a value of the record of the class.\<close>

definition accumulator_value :: "store \<Rightarrow> nat \<Rightarrow> RecallPrecisionResults option" where
  "accumulator_value s self =
     (case accumulators s self of
        None \<Rightarrow> None
      | Some acc \<Rightarrow>
         (case collections s (a_tags acc) of
            Some (SetObj own) \<Rightarrow>
              Some \<lparr>m_recalls = a_recalls acc, m_precisions = a_precisions acc, m_tags = own\<rparr>
          | _ \<Rightarrow> None))"

section \<open>Properties of the scores and of the accumulators\<close>

lemma bind_res_Inr [simp]: "bind_res (Inr x) f = f x"
  by (simp add: bind_res_def)

lemma bind_res_Inl [simp]: "bind_res (Inl e) f = Inl e"
  by (simp add: bind_res_def)

text \<open>
  Claim C7. An accumulator on which \<^verbatim>\<open>add\<close> was never called reports recall 0, precision 1
  and F-score 0: \<^verbatim>\<open>get\<close> returns a value, it does not raise ZeroDivisionError.
\<close>

theorem get_of_empty_accumulator:
  "RecallPrecisionResults_get RecallPrecisionResults_init = Inr (0, 1, 0)"
  by (simp add: RecallPrecisionResults_get_def RecallPrecisionResults_init_def
      calculate_f_score_def py_div_def)

text \<open>
  Claim C8. For non-negative recall \<open>R\<close> and precision \<open>P\<close> the F-score is
  \<open>10 R P / (9 R + P)\<close> when \<open>R + P > 0\<close> and 0 otherwise, and the division never
  raises; the score of \<open>(1, 1)\<close> is 1 and the score of \<open>(0, P)\<close> is 0 for \<open>P > 0\<close>.
\<close>

theorem calculate_f_score_value:
  "(0 \<le> R \<and> 0 \<le> P \<longrightarrow>
      calculate_f_score R P = Inr (if R + P > 0 then 10 * R * P / (9 * R + P) else 0))
   \<and> calculate_f_score 1 1 = Inr 1
   \<and> (0 < P \<longrightarrow> calculate_f_score 0 P = Inr 0)"
proof (intro impI conjI)
  assume nonneg: "0 \<le> R \<and> 0 \<le> P"
  show "calculate_f_score R P = Inr (if R + P > 0 then 10 * R * P / (9 * R + P) else 0)"
  proof (cases "R + P > 0")
    case True
    with nonneg have "9 * R + P > 0" by linarith
    with True show ?thesis by (simp add: calculate_f_score_def py_div_def)
  next
    case False
    then show ?thesis by (simp add: calculate_f_score_def)
  qed
next
  show "calculate_f_score 1 1 = Inr 1"
    by (simp add: calculate_f_score_def py_div_def)
next
  assume "0 < P"
  then show "calculate_f_score 0 P = Inr 0"
    by (simp add: calculate_f_score_def py_div_def)
qed

theorem calculate_f_score_value_witness:
  "(0::real) \<le> 1/2 \<and> (0::real) \<le> 1/4 \<and> calculate_f_score (1/2) (1/4) = Inr (5/19)
   \<and> calculate_f_score 0 (1/4) = Inr 0"
  using calculate_f_score_value [of "1/2" "1/4"] by simp

text \<open>
  The restriction to non-negative arguments is needed: a negative recall can make the
  denominator 0 under a true guard.
\<close>

lemma calculate_f_score_negative_recall: "calculate_f_score (- 1) 9 = Inl ZeroDivisionError"
  by (simp add: calculate_f_score_def py_div_def)

section \<open>Reading integer fields: properties\<close>

lemma not_digit_sign: "\<not> is_digit CHR ''+''" "\<not> is_digit CHR ''-''" "\<not> is_digit (CHR 0x0A)"
  by (simp_all add: is_digit_def)

lemma strip_sign_cases:
  "\<exists>sign. sign \<in> {[], ''+'', ''-''} \<and> s = sign @ strip_sign s"
proof (cases s)
  case Nil
  then show ?thesis by (simp add: strip_sign_def)
next
  case (Cons c r)
  show ?thesis
  proof (cases "c = CHR ''+'' \<or> c = CHR ''-''")
    case True
    then have "strip_sign s = r" by (simp add: strip_sign_def Cons)
    with True Cons have "s = ''+'' @ strip_sign s \<or> s = ''-'' @ strip_sign s" by auto
    then show ?thesis by blast
  next
    case False
    then have "strip_sign s = s" by (simp add: strip_sign_def Cons)
    then have "s = [] @ strip_sign s" by simp
    then show ?thesis by blast
  qed
qed

lemma re_match_int_signed_decimal: "re_match_int s \<Longrightarrow> signed_decimal s"
proof -
  assume m: "re_match_int s"
  define body where "body = strip_sign s"
  define ds where "ds = takeWhile is_digit body"
  define rest where "rest = dropWhile is_digit body"
  have b: "body = ds @ rest" by (simp add: ds_def rest_def)
  from m have ne: "ds \<noteq> []" and r: "rest \<in> {[], [CHR 0x0A]}"
    unfolding re_match_int_def Let_def ds_def rest_def body_def by blast+
  have dig: "\<forall>c \<in> set ds. is_digit c"
    unfolding ds_def by (meson set_takeWhileD)
  obtain sign where sg: "sign \<in> {[], ''+'', ''-''}" and "s = sign @ body"
    unfolding body_def using strip_sign_cases by blast
  then have "s = sign @ ds @ rest" using b by simp
  with sg ne dig r show ?thesis unfolding signed_decimal_def by blast
qed

lemma strip_sign_decomposed:
  assumes "sign \<in> {[], ''+'', ''-''}" "digits \<noteq> []" "\<forall>c \<in> set digits. is_digit c"
  shows "strip_sign (sign @ digits @ nl) = digits @ nl"
proof -
  obtain d ds where d: "digits = d # ds" using assms(2) by (cases digits) auto
  with assms(3) have "is_digit d" by simp
  then have "d \<noteq> CHR ''+''" "d \<noteq> CHR ''-''" using not_digit_sign by auto
  with assms(1) d show ?thesis by (auto simp: strip_sign_def)
qed

lemma takeWhile_decomposed:
  assumes "\<forall>c \<in> set digits. is_digit c" "nl \<in> {[], [CHR 0x0A]}"
  shows "takeWhile is_digit (digits @ nl) = digits" "dropWhile is_digit (digits @ nl) = nl"
  using assms not_digit_sign(3) by (auto simp: takeWhile_append2 dropWhile_append2)

lemma signed_decimal_re_match_int: "signed_decimal s \<Longrightarrow> re_match_int s"
proof -
  assume "signed_decimal s"
  then obtain sign digits nl where s: "s = sign @ digits @ nl"
    and a: "sign \<in> {[], ''+'', ''-''}" "digits \<noteq> []" "\<forall>c \<in> set digits. is_digit c"
    and n: "nl \<in> {[], [CHR 0x0A]}"
    unfolding signed_decimal_def by blast
  have b: "strip_sign s = digits @ nl"
    unfolding s by (rule strip_sign_decomposed [OF a])
  have t: "takeWhile is_digit (strip_sign s) = digits"
    and d: "dropWhile is_digit (strip_sign s) = nl"
    unfolding b by (rule takeWhile_decomposed [OF a(3) n])+
  show ?thesis
    unfolding re_match_int_def Let_def t d using a(2) n by blast
qed

lemma py_int_decomposed:
  assumes "sign \<in> {[], ''+'', ''-''}" "digits \<noteq> []" "\<forall>c \<in> set digits. is_digit c" "nl \<in> {[], [CHR 0x0A]}"
  shows "py_int (sign @ digits @ nl) = (if sign = ''-'' then - decimal_value digits else decimal_value digits)"
proof -
  obtain d ds where d: "digits = d # ds" using assms(2) by (cases digits) auto
  with assms(3) have "is_digit d" by simp
  then have nd: "d \<noteq> CHR ''-''" using not_digit_sign by auto
  have "take 1 (sign @ digits @ nl) = ''-'' \<longleftrightarrow> sign = ''-''"
    using assms(1) d nd by auto
  then show ?thesis
    unfolding py_int_def Let_def
    by (simp only: strip_sign_decomposed [OF assms(1-3)] takeWhile_decomposed [OF assms(3,4)])
qed

lemma get_item_as_int_int_default:
  "get_item_as_int d key (PyInt n) = PyInt (int_item d key n)"
  by (simp add: int_item_def get_item_as_int_def split: pyval.splits)

lemma re_match_int_iff: "re_match_int s \<longleftrightarrow> signed_decimal s"
  using re_match_int_signed_decimal signed_decimal_re_match_int by blast

text \<open>
  The default goes through the same test as a stored value, since the test is applied to
  what \<^verbatim>\<open>d.get(key, default)\<close> returns. The callers pass the integers 100 and 0, which
  the test sends to the \<^verbatim>\<open>else\<close> branch; a default that is itself a string the pattern
  accepts would come back converted.
\<close>

lemma get_item_as_int_string_default:
  "get_item_as_int Map.empty ''tempo'' (PyStr ''5'') = PyInt 5"
  by (simp add: get_item_as_int_def dict_get_def re_match_int_def strip_sign_def is_digit_def
      py_int_def decimal_value_def digit_value_def)

text \<open>
  Claim C9. For every dictionary, every key and every integer default (the function is
  called with 100 or 0): the result is the parsed integer when the value stored under the
  key is a string that matches the pattern \<^verbatim>\<open>^[+-]?\d+$\<close> of an optionally signed decimal
  integer, and the default in every other case: key absent, \<^verbatim>\<open>None\<close>, a string that
  does not match, or a value that is not a string. In particular a stored integer is
  replaced by the default, and a stored string of an optional sign and decimal digits
  gives the decimal value of the digits, negated under a minus sign.
\<close>

theorem get_item_as_int_cases:
  "get_item_as_int d key (PyInt n) =
     (case d key of
        Some (PyStr s) \<Rightarrow> if re_match_int s then PyInt (py_int s) else PyInt n
      | _ \<Rightarrow> PyInt n)
   \<and> (d key = Some (PyInt k) \<longrightarrow> get_item_as_int d key (PyInt n) = PyInt n)
   \<and> (d key = Some (PyStr (sign @ digits)) \<and> sign \<in> {[], ''+'', ''-''}
        \<and> digits \<noteq> [] \<and> (\<forall>c \<in> set digits. is_digit c)
      \<longrightarrow> get_item_as_int d key (PyInt n) =
            PyInt (if sign = ''-'' then - decimal_value digits else decimal_value digits))"
proof (intro conjI impI)
  show "get_item_as_int d key (PyInt n) =
     (case d key of
        Some (PyStr s) \<Rightarrow> if re_match_int s then PyInt (py_int s) else PyInt n
      | _ \<Rightarrow> PyInt n)"
    by (simp add: get_item_as_int_def dict_get_def split: option.splits pyval.splits)
next
  assume "d key = Some (PyInt k)"
  then show "get_item_as_int d key (PyInt n) = PyInt n"
    by (simp add: get_item_as_int_def dict_get_def)
next
  assume h: "d key = Some (PyStr (sign @ digits)) \<and> sign \<in> {[], ''+'', ''-''}
        \<and> digits \<noteq> [] \<and> (\<forall>c \<in> set digits. is_digit c)"
  then have "signed_decimal (sign @ digits @ [])"
    unfolding signed_decimal_def by blast
  then have m: "re_match_int (sign @ digits)"
    using signed_decimal_re_match_int by force
  have "py_int (sign @ digits @ []) =
          (if sign = ''-'' then - decimal_value digits else decimal_value digits)"
    using h by (intro py_int_decomposed) blast+
  with m h show "get_item_as_int d key (PyInt n) =
      PyInt (if sign = ''-'' then - decimal_value digits else decimal_value digits)"
    by (simp add: get_item_as_int_def dict_get_def)
qed

theorem get_item_as_int_cases_witness:
  "get_item_as_int [''tempo'' \<mapsto> PyStr ''-12''] ''tempo'' (PyInt 100) = PyInt (- 12)
   \<and> get_item_as_int [''tempo'' \<mapsto> PyInt 7] ''tempo'' (PyInt 100) = PyInt 100
   \<and> get_item_as_int [''tempo'' \<mapsto> PyStr ''fast''] ''tempo'' (PyInt 100) = PyInt 100
   \<and> get_item_as_int [''tempo'' \<mapsto> PyNone] ''tempo'' (PyInt 100) = PyInt 100
   \<and> get_item_as_int Map.empty ''tempo'' (PyInt 100) = PyInt 100"
proof -
  have "get_item_as_int [''tempo'' \<mapsto> PyStr ''-12''] ''tempo'' (PyInt 100) = PyInt (- 12)"
    using get_item_as_int_cases [of "[''tempo'' \<mapsto> PyStr ''-12'']" "''tempo''" 100 _
        "''-''" "''12''", THEN conjunct2, THEN conjunct2]
    by (simp add: is_digit_def decimal_value_def digit_value_def)
  moreover have "get_item_as_int [''tempo'' \<mapsto> PyInt 7] ''tempo'' (PyInt 100) = PyInt 100"
    using get_item_as_int_cases [of "[''tempo'' \<mapsto> PyInt 7]" "''tempo''" 100 7,
        THEN conjunct2, THEN conjunct1]
    by simp
  moreover have "get_item_as_int [''tempo'' \<mapsto> PyStr ''fast''] ''tempo'' (PyInt 100) = PyInt 100"
    using get_item_as_int_cases [of "[''tempo'' \<mapsto> PyStr ''fast'']" "''tempo''" 100,
        THEN conjunct1]
    by (simp add: re_match_int_def strip_sign_def is_digit_def)
  moreover have "get_item_as_int [''tempo'' \<mapsto> PyNone] ''tempo'' (PyInt 100) = PyInt 100"
    using get_item_as_int_cases [of "[''tempo'' \<mapsto> PyNone]" "''tempo''" 100,
        THEN conjunct1]
    by simp
  moreover have "get_item_as_int Map.empty ''tempo'' (PyInt 100) = PyInt 100"
    using get_item_as_int_cases [of Map.empty "''tempo''" 100, THEN conjunct1]
    by simp
  ultimately show ?thesis by blast
qed

section \<open>Tag classifier: properties\<close>

lemma ln_power_le:
  fixes x :: real
  assumes "0 < x" "x ^ n * 2 ^ k \<le> 1"
  shows "real n * ln x \<le> - (real k * ln 2)"
proof -
  have "ln (x ^ n * 2 ^ k) \<le> ln 1"
    using assms by (intro iffD2 [OF ln_le_cancel_iff]) simp_all
  moreover have "ln (x ^ n * 2 ^ k) = real n * ln x + real k * ln 2"
    using assms(1) by (simp add: ln_mult ln_realpow)
  ultimately show ?thesis by simp
qed

lemma ln_power_gt:
  fixes x :: real
  assumes "0 < x" "1 < x ^ n * 2 ^ k"
  shows "- (real k * ln 2) < real n * ln x"
proof -
  have "ln 1 < ln (x ^ n * 2 ^ k)"
    using assms by (intro iffD2 [OF ln_less_cancel_iff]) simp_all
  moreover have "ln (x ^ n * 2 ^ k) = real n * ln x + real k * ln 2"
    using assms(1) by (simp add: ln_mult ln_realpow)
  ultimately show ?thesis by simp
qed

lemma cents_small_bounds:
  "- 126 < pitch_scale_to_cents THRESHOLD_SMALL" "pitch_scale_to_cents THRESHOLD_SMALL \<le> - 125"
proof -
  have pos: "0 < ln (2::real)" by simp
  have "real 48 * ln (93/100) \<le> - (real 5 * ln 2)"
    by (rule ln_power_le) (simp_all add: power_divide)
  then have "1200 * ln (93/100 :: real) \<le> - 125 * ln 2" by simp
  then have "1200 * ln (93/100 :: real) / ln 2 \<le> - 125"
    using pos by (simp add: pos_divide_le_eq)
  then show "pitch_scale_to_cents THRESHOLD_SMALL \<le> - 125"
    by (simp add: pitch_scale_to_cents_def THRESHOLD_SMALL_def)
  have "- (real 11 * ln 2) < real 105 * ln (93/100)"
    by (rule ln_power_gt) (simp_all add: power_divide)
  then have "- 126 * ln 2 < 1200 * ln (93/100 :: real)" using pos by linarith
  then have "- 126 < 1200 * ln (93/100 :: real) / ln 2"
    using pos by (simp add: pos_less_divide_eq)
  then show "- 126 < pitch_scale_to_cents THRESHOLD_SMALL"
    by (simp add: pitch_scale_to_cents_def THRESHOLD_SMALL_def)
qed

lemma cents_medium_bounds:
  "- 409 < pitch_scale_to_cents THRESHOLD_MEDIUM" "pitch_scale_to_cents THRESHOLD_MEDIUM \<le> - 408"
proof -
  have pos: "0 < ln (2::real)" by simp
  have "real 50 * ln (79/100) \<le> - (real 17 * ln 2)"
    by (rule ln_power_le) (simp_all add: power_divide)
  then have "1200 * ln (79/100 :: real) \<le> - 408 * ln 2" by simp
  then have "1200 * ln (79/100 :: real) / ln 2 \<le> - 408"
    using pos by (simp add: pos_divide_le_eq)
  then show "pitch_scale_to_cents THRESHOLD_MEDIUM \<le> - 408"
    by (simp add: pitch_scale_to_cents_def THRESHOLD_MEDIUM_def)
  have "- (real 16 * ln 2) < real 47 * ln (79/100)"
    by (rule ln_power_gt) (simp_all add: power_divide)
  then have "- 409 * ln 2 < 1200 * ln (79/100 :: real)" using pos by linarith
  then have "- 409 < 1200 * ln (79/100 :: real) / ln 2"
    using pos by (simp add: pos_less_divide_eq)
  then show "- 409 < pitch_scale_to_cents THRESHOLD_MEDIUM"
    by (simp add: pitch_scale_to_cents_def THRESHOLD_MEDIUM_def)
qed

lemma cents_inverse: "0 < x \<Longrightarrow> pitch_scale_to_cents (1 / x) = - pitch_scale_to_cents x"
  by (simp add: pitch_scale_to_cents_def ln_div)

lemma pitch_constants:
  "MIN_PITCH_SMALL = - 125" "MAX_PITCH_SMALL = 125"
  "MIN_PITCH_MEDIUM = - 408" "MAX_PITCH_MEDIUM = 408"
proof -
  show "MIN_PITCH_SMALL = - 125"
    unfolding MIN_PITCH_SMALL_def using cents_small_bounds by (intro ceiling_unique) simp_all
  show "MIN_PITCH_MEDIUM = - 408"
    unfolding MIN_PITCH_MEDIUM_def using cents_medium_bounds by (intro ceiling_unique) simp_all
  have "0 < THRESHOLD_SMALL" by (simp add: THRESHOLD_SMALL_def)
  then show "MAX_PITCH_SMALL = 125"
    unfolding MAX_PITCH_SMALL_def using cents_small_bounds
    by (intro floor_unique) (simp_all add: cents_inverse)
  have "0 < THRESHOLD_MEDIUM" by (simp add: THRESHOLD_MEDIUM_def)
  then show "MAX_PITCH_MEDIUM = 408"
    unfolding MAX_PITCH_MEDIUM_def using cents_medium_bounds
    by (intro floor_unique) (simp_all add: cents_inverse)
qed

lemma tempo_constants:
  "MIN_TEMPO_SMALL = 93" "MAX_TEMPO_SMALL = 107"
  "MIN_TEMPO_MEDIUM = 79" "MAX_TEMPO_MEDIUM = 126"
  by (simp_all add: MIN_TEMPO_SMALL_def MAX_TEMPO_SMALL_def MIN_TEMPO_MEDIUM_def
      MAX_TEMPO_MEDIUM_def tempo_scale_to_per_cent_def THRESHOLD_SMALL_def THRESHOLD_MEDIUM_def)


lemmas field_defs = FIELD_ANNOTATION_TEMPO_def FIELD_ANNOTATION_PITCH_def
  FIELD_ANNOTATION_ECHO_DELAY_def FIELD_ANNOTATION_HIGH_PASS_def FIELD_ANNOTATION_LOW_PASS_def
  FIELD_ANNOTATION_REVERB_def FIELD_ANNOTATION_NOISE_TYPE_def FIELD_ANNOTATION_NOISE_COLOR_def
  FIELD_ANNOTATION_NOISE_SNR_def FIELD_ANNOTATION_MERGE_PREV_def FIELD_ANNOTATION_MERGE_NEXT_def
  NOISE_TYPE_SAMPLE_def

lemma flag_tags_other: "t \<in> set (flag_tags a) \<Longrightarrow> other_tag t"
  by (auto simp: flag_tags_def other_tag_def split: if_splits)

lemma str_concat_other:
  "str_concat (c # p) v = Inr t \<Longrightarrow> c \<in> set ''ehlrnm'' \<Longrightarrow> other_tag t"
  by (cases v) (auto simp: str_concat_def other_tag_def)

lemma noise_tags_other: "noise_tags a = Inr ts \<Longrightarrow> t \<in> set ts \<Longrightarrow> other_tag t"
  unfolding noise_tags_def Let_def
  by (auto simp: other_tag_def str_concat_def split: if_splits pyval.splits)

lemma merge_tag_other:
  "merge_tag a f d ''merge_prev:'' = Inr t \<Longrightarrow> other_tag t"
  "merge_tag a f d ''merge_next:'' = Inr t \<Longrightarrow> other_tag t"
  unfolding merge_tag_def Let_def
  by (auto simp: other_tag_def str_concat_def split: if_splits pyval.splits)

lemma get_tags_decomposed:
  assumes "get_tags_from_annotation a = Inr tags"
  shows "\<exists>rest. tags = modification_tags (int_item a FIELD_ANNOTATION_TEMPO 100)
                          (int_item a FIELD_ANNOTATION_PITCH 0) @ rest
               \<and> (\<forall>t \<in> set rest. other_tag t)"
proof -
  from assms obtain noise mp mn where n: "noise_tags a = Inr noise"
    and p: "merge_tag a FIELD_ANNOTATION_MERGE_PREV ''begin'' ''merge_prev:'' = Inr mp"
    and x: "merge_tag a FIELD_ANNOTATION_MERGE_NEXT ''end'' ''merge_next:'' = Inr mn"
    and t: "tags = (modification_tags (int_item a FIELD_ANNOTATION_TEMPO 100)
                          (int_item a FIELD_ANNOTATION_PITCH 0) @ flag_tags a) @ noise @ [mp, mn]"
    unfolding get_tags_from_annotation_def Let_def bind_res_def
    by (auto split: sum.splits)
  have "\<forall>t \<in> set (flag_tags a @ noise @ [mp, mn]). other_tag t"
    using flag_tags_other noise_tags_other [OF n] merge_tag_other(1) [OF p]
      merge_tag_other(2) [OF x] by auto
  with t show ?thesis by auto
qed

lemma not_other:
  "\<not> other_tag ''pitch:exact''" "\<not> other_tag ''pitch:small''" "\<not> other_tag ''pitch:medium''"
  "\<not> other_tag ''pitch:large''" "\<not> other_tag ''tempo:exact''" "\<not> other_tag ''tempo:small''"
  "\<not> other_tag ''tempo:medium''" "\<not> other_tag ''tempo:large''"
  by (simp_all add: other_tag_def)


lemmas eval_tags = get_tags_from_annotation_def int_item_def get_item_as_int_def dict_get_def
  re_match_int_def strip_sign_def is_digit_def py_int_def decimal_value_def digit_value_def
  modification_tags_def flag_tags_def noise_tags_def merge_tag_def str_concat_def py_truthy_def
  py_format_def field_defs pitch_constants tempo_constants

text \<open>
  Claim C6, as stated, makes \<open>small\<close> the values strictly between the small-band bounds.
  The comparisons of the classifier are inclusive and the exact value is a class of its
  own: pitch 125 and tempo 93 sit on a bound and are \<open>small\<close>, and pitch 0 lies strictly
  between the bounds and is \<open>exact\<close>.
\<close>

theorem tag_bands_counterexample:
  "get_tags_from_annotation [''pitch'' \<mapsto> PyStr ''125''] =
     Inr [''pitch:small'', ''noise:none'', ''merge_prev:begin'', ''merge_next:end'']
   \<and> \<not> (125 < MAX_PITCH_SMALL)
   \<and> get_tags_from_annotation [''tempo'' \<mapsto> PyStr ''93''] =
     Inr [''tempo:small'', ''noise:none'', ''merge_prev:begin'', ''merge_next:end'']
   \<and> \<not> (MIN_TEMPO_SMALL < 93)
   \<and> get_tags_from_annotation [''pitch'' \<mapsto> PyStr ''0''] =
     Inr [''pitch:exact'', ''tempo:exact'', ''speed:exact'', ''noise:none'',
          ''merge_prev:begin'', ''merge_next:end'']
   \<and> MIN_PITCH_SMALL < 0 \<and> 0 < MAX_PITCH_SMALL"
  by (simp add: eval_tags)

text \<open>
  Claim C6, amended. The bounds are the ratios \<open>1 - 0.07\<close> and \<open>1 - 0.21\<close> and their
  reciprocals, converted to cents and to per cent, the lower bound rounded up and the upper
  bound rounded down: -125, 125, -408, 408 cents and 93, 107, 79, 126 per cent. For every
  integer pitch (with tempo 100) and every integer tempo (with pitch 0) the value is
  \<open>exact\<close> when it is 0 (100 for the tempo); otherwise \<open>small\<close> exactly when it lies
  between the small-band bounds, the bounds included; \<open>medium\<close> when it lies between the
  medium-band bounds, the bounds included, but outside the small band; and \<open>large\<close>
  otherwise.
\<close>

theorem tag_bands:
  assumes "get_tags_from_annotation annotation = Inr tags"
  shows "(MIN_PITCH_SMALL, MAX_PITCH_SMALL, MIN_PITCH_MEDIUM, MAX_PITCH_MEDIUM)
           = (- 125, 125, - 408, 408)
       \<and> (MIN_TEMPO_SMALL, MAX_TEMPO_SMALL, MIN_TEMPO_MEDIUM, MAX_TEMPO_MEDIUM)
           = (93, 107, 79, 126)
       \<and> (int_item annotation FIELD_ANNOTATION_TEMPO 100 = 100 \<and>
            int_item annotation FIELD_ANNOTATION_PITCH 0 = pitch \<longrightarrow>
            (''pitch:exact'' \<in> set tags \<longleftrightarrow> pitch = 0)
          \<and> (''pitch:small'' \<in> set tags \<longleftrightarrow>
               pitch \<noteq> 0 \<and> MIN_PITCH_SMALL \<le> pitch \<and> pitch \<le> MAX_PITCH_SMALL)
          \<and> (''pitch:medium'' \<in> set tags \<longleftrightarrow>
               \<not> (MIN_PITCH_SMALL \<le> pitch \<and> pitch \<le> MAX_PITCH_SMALL)
               \<and> MIN_PITCH_MEDIUM \<le> pitch \<and> pitch \<le> MAX_PITCH_MEDIUM)
          \<and> (''pitch:large'' \<in> set tags \<longleftrightarrow>
               \<not> (MIN_PITCH_MEDIUM \<le> pitch \<and> pitch \<le> MAX_PITCH_MEDIUM)))
       \<and> (int_item annotation FIELD_ANNOTATION_PITCH 0 = 0 \<and>
            int_item annotation FIELD_ANNOTATION_TEMPO 100 = tempo \<longrightarrow>
            (''tempo:exact'' \<in> set tags \<longleftrightarrow> tempo = 100)
          \<and> (''tempo:small'' \<in> set tags \<longleftrightarrow>
               tempo \<noteq> 100 \<and> MIN_TEMPO_SMALL \<le> tempo \<and> tempo \<le> MAX_TEMPO_SMALL)
          \<and> (''tempo:medium'' \<in> set tags \<longleftrightarrow>
               \<not> (MIN_TEMPO_SMALL \<le> tempo \<and> tempo \<le> MAX_TEMPO_SMALL)
               \<and> MIN_TEMPO_MEDIUM \<le> tempo \<and> tempo \<le> MAX_TEMPO_MEDIUM)
          \<and> (''tempo:large'' \<in> set tags \<longleftrightarrow>
               \<not> (MIN_TEMPO_MEDIUM \<le> tempo \<and> tempo \<le> MAX_TEMPO_MEDIUM)))"
proof -
  from get_tags_decomposed [OF assms] obtain rest
    where tags: "tags = modification_tags (int_item annotation FIELD_ANNOTATION_TEMPO 100)
                          (int_item annotation FIELD_ANNOTATION_PITCH 0) @ rest"
      and rest: "\<forall>t \<in> set rest. other_tag t"
    by blast
  have mem: "t \<in> set tags \<longleftrightarrow>
               t \<in> set (modification_tags (int_item annotation FIELD_ANNOTATION_TEMPO 100)
                          (int_item annotation FIELD_ANNOTATION_PITCH 0))"
    if "\<not> other_tag t" for t
    using that rest tags by auto
  have pitch_part: "(''pitch:exact'' \<in> set tags \<longleftrightarrow> pitch = 0)
          \<and> (''pitch:small'' \<in> set tags \<longleftrightarrow>
               pitch \<noteq> 0 \<and> MIN_PITCH_SMALL \<le> pitch \<and> pitch \<le> MAX_PITCH_SMALL)
          \<and> (''pitch:medium'' \<in> set tags \<longleftrightarrow>
               \<not> (MIN_PITCH_SMALL \<le> pitch \<and> pitch \<le> MAX_PITCH_SMALL)
               \<and> MIN_PITCH_MEDIUM \<le> pitch \<and> pitch \<le> MAX_PITCH_MEDIUM)
          \<and> (''pitch:large'' \<in> set tags \<longleftrightarrow>
               \<not> (MIN_PITCH_MEDIUM \<le> pitch \<and> pitch \<le> MAX_PITCH_MEDIUM))"
    if "int_item annotation FIELD_ANNOTATION_TEMPO 100 = 100"
      and "int_item annotation FIELD_ANNOTATION_PITCH 0 = pitch"
    unfolding mem [OF not_other(1)] mem [OF not_other(2)] mem [OF not_other(3)]
      mem [OF not_other(4)] that
    by (simp add: modification_tags_def pitch_constants)
  have tempo_part: "(''tempo:exact'' \<in> set tags \<longleftrightarrow> tempo = 100)
          \<and> (''tempo:small'' \<in> set tags \<longleftrightarrow>
               tempo \<noteq> 100 \<and> MIN_TEMPO_SMALL \<le> tempo \<and> tempo \<le> MAX_TEMPO_SMALL)
          \<and> (''tempo:medium'' \<in> set tags \<longleftrightarrow>
               \<not> (MIN_TEMPO_SMALL \<le> tempo \<and> tempo \<le> MAX_TEMPO_SMALL)
               \<and> MIN_TEMPO_MEDIUM \<le> tempo \<and> tempo \<le> MAX_TEMPO_MEDIUM)
          \<and> (''tempo:large'' \<in> set tags \<longleftrightarrow>
               \<not> (MIN_TEMPO_MEDIUM \<le> tempo \<and> tempo \<le> MAX_TEMPO_MEDIUM))"
    if "int_item annotation FIELD_ANNOTATION_PITCH 0 = 0"
      and "int_item annotation FIELD_ANNOTATION_TEMPO 100 = tempo"
    unfolding mem [OF not_other(5)] mem [OF not_other(6)] mem [OF not_other(7)]
      mem [OF not_other(8)] that
    by (simp add: modification_tags_def tempo_constants)
  show ?thesis
    using pitch_part tempo_part by (simp add: pitch_constants tempo_constants)
qed

theorem tag_bands_witness:
  "get_tags_from_annotation [''pitch'' \<mapsto> PyStr ''-300''] =
     Inr [''pitch:medium'', ''noise:none'', ''merge_prev:begin'', ''merge_next:end'']
   \<and> int_item [''pitch'' \<mapsto> PyStr ''-300''] FIELD_ANNOTATION_TEMPO 100 = 100
   \<and> int_item [''pitch'' \<mapsto> PyStr ''-300''] FIELD_ANNOTATION_PITCH 0 = - 300
   \<and> \<not> (MIN_PITCH_SMALL \<le> - 300 \<and> - 300 \<le> MAX_PITCH_SMALL)
   \<and> MIN_PITCH_MEDIUM \<le> - 300 \<and> - 300 \<le> MAX_PITCH_MEDIUM"
proof -
  have g: "get_tags_from_annotation [''pitch'' \<mapsto> PyStr ''-300''] =
     Inr [''pitch:medium'', ''noise:none'', ''merge_prev:begin'', ''merge_next:end'']"
    by (simp add: eval_tags)
  have t: "int_item [''pitch'' \<mapsto> PyStr ''-300''] FIELD_ANNOTATION_TEMPO 100 = 100"
    and p: "int_item [''pitch'' \<mapsto> PyStr ''-300''] FIELD_ANNOTATION_PITCH 0 = - 300"
    by (simp_all add: eval_tags)
  from tag_bands [OF g, of "- 300" 100] t p
  have "''pitch:medium'' \<in> set [''pitch:medium'', ''noise:none'', ''merge_prev:begin'',
            ''merge_next:end''] \<longleftrightarrow>
          \<not> (MIN_PITCH_SMALL \<le> - 300 \<and> - 300 \<le> MAX_PITCH_SMALL)
          \<and> MIN_PITCH_MEDIUM \<le> - 300 \<and> - 300 \<le> MAX_PITCH_MEDIUM"
    by blast
  then have "\<not> (MIN_PITCH_SMALL \<le> - 300 \<and> - 300 \<le> MAX_PITCH_SMALL)
          \<and> MIN_PITCH_MEDIUM \<le> - 300 \<and> - 300 \<le> MAX_PITCH_MEDIUM"
    by simp
  with g t p show ?thesis by blast
qed

section \<open>Intervals: the invariant and the covered seconds\<close>

lemma cells_Nil [simp]: "cells [] = {}"
  by (simp add: cells_def)

lemma cells_Cons [simp]: "cells ((l, u) # xs) = {l..<u} \<union> cells xs"
  by (simp add: cells_def)

lemma cells_append [simp]: "cells (xs @ ys) = cells xs \<union> cells ys"
  by (auto simp: cells_def)

lemma finite_cells [simp]: "finite (cells xs)"
  by (induction xs) (auto simp: cells_def)

lemma wf_nonempty: "wf_interval xs \<Longrightarrow> (a, b) \<in> set xs \<Longrightarrow> a < b"
  by (induction xs) auto

lemma merge_in_lowers:
  "p \<in> set (merge_in (l, u) xs) \<Longrightarrow> fst p = l \<or> (\<exists>q \<in> set xs. fst p = fst q)"
proof (induction "(l, u)" xs arbitrary: l u rule: merge_in.induct)
  case (1 l u)
  then show ?case by simp
next
  case (2 l u l' u' xs)
  show ?case
  proof (cases "u < l' \<or> u' < l")
    case True
    with 2 show ?thesis by (auto split: if_splits)
  next
    case False
    with 2(3) have "p \<in> set (merge_in (min l l', max u u') xs)" by simp
    with 2(2) False have "fst p = min l l' \<or> (\<exists>q \<in> set xs. fst p = fst q)" by simp
    then show ?thesis by (auto simp: min_def split: if_splits)
  qed
qed

lemma wf_merge_in: "wf_interval xs \<Longrightarrow> l < u \<Longrightarrow> wf_interval (merge_in (l, u) xs)"
proof (induction "(l, u)" xs arbitrary: l u rule: merge_in.induct)
  case (1 l u)
  then show ?case by simp
next
  case (2 l u l' u' xs)
  show ?case
  proof (cases "u < l'")
    case True
    with 2 show ?thesis by (auto simp: list_all_iff)
  next
    case nl: False
    show ?thesis
    proof (cases "u' < l")
      case True
      have "list_all (\<lambda>(a, b). u' < a) (merge_in (l, u) xs)"
        unfolding list_all_iff
      proof
        fix p assume "p \<in> set (merge_in (l, u) xs)"
        from merge_in_lowers [OF this] 2(3) True
        have "u' < fst p" by (auto simp: list_all_iff)
        then show "case p of (a, b) \<Rightarrow> u' < a" by (cases p) simp
      qed
      with 2 nl True show ?thesis by simp
    next
      case False
      with 2 nl show ?thesis by simp
    qed
  qed
qed

lemma cells_merge_in:
  "wf_interval xs \<Longrightarrow> l < u \<Longrightarrow> cells (merge_in (l, u) xs) = {l..<u} \<union> cells xs"
proof (induction "(l, u)" xs arbitrary: l u rule: merge_in.induct)
  case (1 l u)
  then show ?case by simp
next
  case (2 l u l' u' xs)
  then show ?case by (auto simp: min_def max_def split: if_splits)
qed


lemma wf_foldr_merge_in:
  "\<forall>(l, u) \<in> set qs. l < u \<Longrightarrow> wf_interval (foldr merge_in qs [])"
  by (induction qs) (auto intro: wf_merge_in)

lemma cells_foldr_merge_in:
  "\<forall>(l, u) \<in> set qs. l < u \<Longrightarrow> cells (foldr merge_in qs []) = cells qs"
proof (induction qs)
  case Nil
  then show ?case by simp
next
  case (Cons q qs)
  obtain l u where q: "q = (l, u)" by (cases q)
  with Cons show ?case
    by (simp add: cells_merge_in wf_foldr_merge_in)
qed

lemma cells_filter_nonempty: "cells (filter (\<lambda>(l, u). l < u) ps) = cells ps"
  by (induction ps) (auto simp: cells_def)

lemma wf_normalise [simp]: "wf_interval (normalise ps)"
  unfolding normalise_def by (rule wf_foldr_merge_in) auto

lemma cells_normalise [simp]: "cells (normalise ps) = cells ps"
  unfolding normalise_def by (subst cells_foldr_merge_in) (auto simp: cells_filter_nonempty)

lemma wf_cells_above:
  "wf_interval xs \<Longrightarrow> list_all (\<lambda>(l', u'). u < l') xs \<Longrightarrow> k \<in> cells xs \<Longrightarrow> u < k"
  by (induction xs) (auto simp: cells_def list_all_iff)

lemma length_card_cells: "wf_interval xs \<Longrightarrow> get_interval_length xs = int (card (cells xs))"
proof (induction xs)
  case Nil
  then show ?case by (simp add: get_interval_length_def)
next
  case (Cons p xs)
  obtain l u where p: "p = (l, u)" by (cases p)
  from Cons.prems p have lu: "l < u" and above: "list_all (\<lambda>(l', u'). u < l') xs"
    and wf: "wf_interval xs" by simp_all
  have disj: "{l..<u} \<inter> cells xs = {}"
    using wf_cells_above [OF wf above] by fastforce
  have "get_interval_length (p # xs) = (u - l) + get_interval_length xs"
    using lu by (simp add: get_interval_length_def p)
  also have "\<dots> = int (card {l..<u}) + int (card (cells xs))"
    using Cons.IH [OF wf] lu by simp
  also have "\<dots> = int (card ({l..<u} \<union> cells xs))"
    using disj by (simp add: card_Un_disjoint)
  finally show ?case by (simp add: p)
qed

lemma wf_is_empty: "wf_interval xs \<Longrightarrow> is_empty xs \<longleftrightarrow> cells xs = {}"
  by (cases xs) (auto simp: is_empty_def)

lemma wf_closedopen [simp]: "wf_interval (closedopen l u)"
  by (simp add: closedopen_def)

lemma cells_closedopen [simp]: "cells (closedopen l u) = {l..<u}"
  by (simp add: closedopen_def)

lemma wf_interval_union [simp]: "wf_interval (interval_union a b)"
  by (simp add: interval_union_def)

lemma cells_interval_union [simp]: "cells (interval_union a b) = cells a \<union> cells b"
  by (simp add: interval_union_def)

lemma wf_interval_inter [simp]: "wf_interval (interval_inter a b)"
  by (simp add: interval_inter_def)

lemma cells_interval_inter [simp]: "cells (interval_inter a b) = cells a \<inter> cells b"
  unfolding interval_inter_def cells_normalise
  by (auto simp: cells_def split: prod.splits) force+

lemma range_minus_range:
  fixes a b l u :: int
  shows "{a..<min b l} \<union> {max a u..<b} = {a..<b} - {l..<u}"
  by (auto simp: min_def max_def)

lemma cells_sub_atomic_one: "cells (sub_atomic g (a, b)) = {a..<b} - {fst g..<snd g}"
  by (simp add: sub_atomic_def range_minus_range)

lemma cells_sub_atomic:
  "cells (concat (map (sub_atomic g) acc)) = cells acc - {fst g..<snd g}"
proof (induction acc)
  case Nil
  then show ?case by simp
next
  case (Cons r acc)
  obtain a b where r: "r = (a, b)" by (cases r)
  show ?case
    by (simp only: list.map concat.simps cells_append Cons.IH r cells_sub_atomic_one
        cells_Cons Un_Diff)
qed

lemma wf_interval_diff: "wf_interval a \<Longrightarrow> wf_interval (interval_diff a b)"
  unfolding interval_diff_def by (induction b arbitrary: a) simp_all

lemma cells_fold_diff:
  "cells (fold (\<lambda>gap acc. normalise (concat (map (sub_atomic gap) acc))) b a)
     = cells a - cells b"
proof (induction b arbitrary: a)
  case Nil
  then show ?case by simp
next
  case (Cons g b)
  obtain l u where g: "g = (l, u)" by (cases g)
  show ?case by (simp add: Cons.IH cells_sub_atomic g Diff_eq Int_assoc)
qed

lemma cells_interval_diff [simp]: "cells (interval_diff a b) = cells a - cells b"
  unfolding interval_diff_def by (rule cells_fold_diff)

section \<open>The evaluator protocol: properties\<close>

lemma bind_res_assoc: "bind_res (bind_res r f) g = bind_res r (\<lambda>x. bind_res (f x) g)"
  by (cases r) simp_all

lemma run_calls_append:
  "run_calls f (xs @ ys) self = bind_res (run_calls f xs self) (run_calls f ys)"
proof (induction xs arbitrary: self)
  case Nil
  then show ?case by simp
next
  case (Cons c xs)
  obtain pair a m where c: "c = (pair, a, m)" by (cases c)
  have "run_calls f (xs @ ys) = (\<lambda>x. bind_res (run_calls f xs x) (run_calls f ys))"
    using Cons.IH by (intro ext)
  then show ?case by (simp add: c bind_res_assoc)
qed

lemma loop_matches_calls:
  "evaluate_loop_matches f annotations ms self =
     run_calls f (map (\<lambda>(pair, match). (pair, get_or_empty annotations pair, match)) ms) self"
proof (induction ms arbitrary: self)
  case Nil
  then show ?case by simp
next
  case (Cons e ms)
  obtain pair m where e: "e = (pair, m)" by (cases e)
  have "evaluate_loop_matches f annotations ms =
          run_calls f (map (\<lambda>(pair, match). (pair, get_or_empty annotations pair, match)) ms)"
    using Cons.IH by (intro ext)
  then show ?case
    by (simp add: e get_or_empty_def split: option.splits)
qed

lemma loop_annotations_calls:
  "evaluate_loop_annotations f matches as self =
     run_calls f (map (\<lambda>(pair, annotation). (pair, annotation, []))
         (filter (\<lambda>(pair, annotation). pair \<notin> set (dict_keys matches)) as)) self"
proof (induction as arbitrary: self)
  case Nil
  then show ?case by simp
next
  case (Cons e as)
  obtain pair a where e: "e = (pair, a)" by (cases e)
  have "evaluate_loop_annotations f matches as =
          run_calls f (map (\<lambda>(pair, annotation). (pair, annotation, []))
            (filter (\<lambda>(pair, annotation). pair \<notin> set (dict_keys matches)) as))"
    using Cons.IH by (intro ext)
  then show ?case by (simp add: e)
qed

lemma evaluate_run_calls:
  "evaluate f annotations matches self = run_calls f (evaluate_calls annotations matches) self"
proof -
  have "evaluate_loop_annotations f matches annotations =
          run_calls f (map (\<lambda>(pair, annotation). (pair, annotation, []))
            (filter (\<lambda>(pair, annotation). pair \<notin> set (dict_keys matches)) annotations))"
    by (intro ext) (rule loop_annotations_calls)
  then show ?thesis
    by (simp add: evaluate_def evaluate_calls_def run_calls_append loop_matches_calls)
qed

lemma run_calls_record: "run_calls record_call calls trace = Inr (trace @ calls)"
proof (induction calls arbitrary: trace)
  case Nil
  then show ?case by simp
next
  case (Cons c calls)
  obtain pair a m where c: "c = (pair, a, m)" by (cases c)
  have step: "record_call pair a m trace = Inr (trace @ [(pair, a, m)])"
    by (simp add: record_call_def)
  show ?case by (simp add: c step Cons.IH)
qed

lemma keys_evaluate_calls:
  "map fst (evaluate_calls annotations matches) =
     dict_keys matches @ filter (\<lambda>pair. pair \<notin> set (dict_keys matches)) (dict_keys annotations)"
proof -
  have "map fst (map (\<lambda>(pair, match). (pair, get_or_empty annotations pair, match)) ms) = map fst ms"
    for ms :: segments
    by (induction ms) auto
  moreover have "map fst (map (\<lambda>(pair, annotation). (pair, annotation, ([]::segment list)))
         (filter (\<lambda>(pair, annotation). pair \<notin> K) as)) = filter (\<lambda>pair. pair \<notin> K) (map fst as)"
    for as :: segments and K
    by (induction as) auto
  ultimately show ?thesis by (simp add: evaluate_calls_def dict_keys_def)
qed

lemma get_or_empty_entry:
  "distinct (dict_keys d) \<Longrightarrow> (pair, xs) \<in> set d \<Longrightarrow> get_or_empty d pair = xs"
  by (simp add: get_or_empty_def dict_keys_def)

lemma get_or_empty_absent: "pair \<notin> set (dict_keys d) \<Longrightarrow> get_or_empty d pair = []"
proof -
  assume "pair \<notin> set (dict_keys d)"
  then have "map_of d pair = None"
    by (simp add: map_of_eq_None_iff dict_keys_def)
  then show ?thesis by (simp add: get_or_empty_def)
qed

lemma evaluate_calls_distinct:
  "distinct (dict_keys annotations) \<Longrightarrow> distinct (dict_keys matches) \<Longrightarrow>
     distinct (map fst (evaluate_calls annotations matches))"
  by (auto simp: keys_evaluate_calls)

lemma evaluate_calls_keys:
  "set (map fst (evaluate_calls annotations matches)) =
     set (dict_keys annotations) \<union> set (dict_keys matches)"
  by (auto simp: keys_evaluate_calls)

lemma evaluate_calls_entries:
  assumes "distinct (dict_keys annotations)" and "distinct (dict_keys matches)"
    and "c \<in> set (evaluate_calls annotations matches)"
  shows "fst (snd c) = get_or_empty annotations (fst c)"
    and "snd (snd c) = get_or_empty matches (fst c)"
  using assms by (auto simp: evaluate_calls_def get_or_empty_entry get_or_empty_absent)

text \<open>
  Claim C1. For two dictionaries with distinct keys, \<^verbatim>\<open>evaluate\<close> runs the pairwise scorer
  on exactly the calls of \<open>evaluate_calls\<close>, whatever the scorer is, and a scorer that
  records its arguments records exactly that list. The list has one call for each key of
  the union of the two key sets and no other: its keys are distinct and they are the
  union. Each call carries the annotation list and the match list of its pair, the empty
  list standing for a side that lacks the key.
\<close>

theorem evaluate_scores_every_pair_once:
  assumes "distinct (dict_keys annotations)" and "distinct (dict_keys matches)"
  shows "evaluate evaluate_pair annotations matches self =
           run_calls evaluate_pair (evaluate_calls annotations matches) self
       \<and> evaluate record_call annotations matches [] = Inr (evaluate_calls annotations matches)
       \<and> distinct (map fst (evaluate_calls annotations matches))
       \<and> set (map fst (evaluate_calls annotations matches)) =
           set (dict_keys annotations) \<union> set (dict_keys matches)
       \<and> (\<forall>(pair, annotation, match) \<in> set (evaluate_calls annotations matches).
             annotation = get_or_empty annotations pair \<and> match = get_or_empty matches pair)"
proof (intro conjI)
  show "evaluate evaluate_pair annotations matches self =
           run_calls evaluate_pair (evaluate_calls annotations matches) self"
    by (rule evaluate_run_calls)
  show "evaluate record_call annotations matches [] = Inr (evaluate_calls annotations matches)"
    by (simp add: evaluate_run_calls run_calls_record)
  show "distinct (map fst (evaluate_calls annotations matches))"
    using assms by (rule evaluate_calls_distinct)
  show "set (map fst (evaluate_calls annotations matches)) =
           set (dict_keys annotations) \<union> set (dict_keys matches)"
    by (rule evaluate_calls_keys)
  show "\<forall>(pair, annotation, match) \<in> set (evaluate_calls annotations matches).
             annotation = get_or_empty annotations pair \<and> match = get_or_empty matches pair"
    using evaluate_calls_entries [OF assms] by fastforce
qed

theorem evaluate_scores_every_pair_once_witness:
  "distinct (dict_keys [((''q1'', ''r1''), [scenario_segment]), ((''q2'', ''r1''), [scenario_segment])])
   \<and> distinct (dict_keys [((''q1'', ''r1''), [scenario_segment]), ((''q3'', ''r2''), [scenario_segment])])
   \<and> evaluate record_call
         [((''q1'', ''r1''), [scenario_segment]), ((''q2'', ''r1''), [scenario_segment])]
         [((''q1'', ''r1''), [scenario_segment]), ((''q3'', ''r2''), [scenario_segment])] []
       = Inr [((''q1'', ''r1''), [scenario_segment], [scenario_segment]),
              ((''q3'', ''r2''), [], [scenario_segment]),
              ((''q2'', ''r1''), [scenario_segment], [])]"
proof -
  have a: "distinct (dict_keys [((''q1'', ''r1''), [scenario_segment]), ((''q2'', ''r1''), [scenario_segment])])"
    and m: "distinct (dict_keys [((''q1'', ''r1''), [scenario_segment]), ((''q3'', ''r2''), [scenario_segment])])"
    by (simp_all add: dict_keys_def)
  from evaluate_scores_every_pair_once [OF a m, THEN conjunct2, THEN conjunct1] a m
  show ?thesis
    by (simp add: evaluate_calls_def get_or_empty_def dict_keys_def)
qed

section \<open>Track-level evaluator: properties\<close>

lemma sum_indicator_card:
  "distinct ks \<Longrightarrow>
     sum_list (map (\<lambda>k. if P k then (1::int) else 0) ks) = int (card {k \<in> set ks. P k})"
proof (induction ks)
  case Nil
  then show ?case by simp
next
  case (Cons k ks)
  have fin: "finite {x \<in> set ks. P x}" by simp
  have "{x \<in> set (k # ks). P x} = (if P k then insert k {x \<in> set ks. P x} else {x \<in> set ks. P x})"
    by auto
  moreover have "k \<notin> {x \<in> set ks. P x}" using Cons.prems by simp
  ultimately show ?case using Cons fin by (simp del: set_filter)
qed


lemma bind_res_eq_Inr:
  "bind_res r f = Inr y \<longleftrightarrow> (\<exists>x. r = Inr x \<and> f x = Inr y)"
  by (cases r) simp_all

lemma PositivesNegativesResults_add_counts:
  "m_tp (PositivesNegativesResults_add tp up fp fn T r) = m_tp r + tp"
  "m_up (PositivesNegativesResults_add tp up fp fn T r) = m_up r + up"
  "m_fp (PositivesNegativesResults_add tp up fp fn T r) = m_fp r + fp"
  "m_fn (PositivesNegativesResults_add tp up fp fn T r) = m_fn r + fn"
  "length (m_recalls (PositivesNegativesResults_add tp up fp fn T r)) = Suc (length (m_recalls r))"
  by (simp_all add: PositivesNegativesResults_add_def RecallPrecisionResults_add_def Let_def)

lemma add_to_tags_dom: "dom (add_to_tags add new tags table) = dom table \<union> set tags"
  unfolding add_to_tags_def
  by (induction tags arbitrary: table) auto

lemma tag_loop_dom:
  "tag_loop add new annotation table = Inr table' \<Longrightarrow>
     dom table' \<subseteq> dom table \<union>
       {tag. \<exists>a tags. a \<in> set annotation \<and> get_tags_from_annotation (params a) = Inr tags
                \<and> tag \<in> set tags}"
proof (induction annotation arbitrary: table)
  case Nil
  then show ?case by simp
next
  case (Cons a annotation)
  from Cons.prems obtain tags where t: "get_tags_from_annotation (params a) = Inr tags"
    and l: "tag_loop add new annotation (add_to_tags add new tags table) = Inr table'"
    by (auto simp: bind_res_eq_Inr)
  show ?case
  proof
    fix tag assume "tag \<in> dom table'"
    with Cons.IH [OF l] consider "tag \<in> dom table" | "tag \<in> set tags"
      | "\<exists>x ts. x \<in> set annotation \<and> get_tags_from_annotation (params x) = Inr ts
            \<and> tag \<in> set ts"
      unfolding add_to_tags_dom by blast
    then show "tag \<in> dom table \<union>
       {tag. \<exists>x tags. x \<in> set (a # annotation) \<and> get_tags_from_annotation (params x) = Inr tags
                \<and> tag \<in> set tags}"
    proof cases
      case 1
      then show ?thesis by simp
    next
      case 2
      with t have "\<exists>x tags. x \<in> set (a # annotation)
          \<and> get_tags_from_annotation (params x) = Inr tags \<and> tag \<in> set tags"
        by (intro exI [of _ a] exI [of _ tags]) simp
      then show ?thesis by simp
    next
      case 3
      then obtain x ts where "x \<in> set annotation" "get_tags_from_annotation (params x) = Inr ts"
        "tag \<in> set ts" by blast
      then have "\<exists>x tags. x \<in> set (a # annotation)
          \<and> get_tags_from_annotation (params x) = Inr tags \<and> tag \<in> set tags"
        by (intro exI [of _ x] exI [of _ ts]) simp
      then show ?thesis by simp
    qed
  qed
qed

lemma store_results_effect:
  assumes "store_results add new pair annotation self = Inr self'"
  shows "\<exists>T. pair_results self' =
              (pair_results self)(pair \<mapsto> add T (dd_get new (pair_results self) pair))"
    and "ref_results self' =
              (ref_results self)(snd pair \<mapsto> add {} (dd_get new (ref_results self) (snd pair)))"
    and "all_results self' = add {''TOTAL''} (all_results self)"
    and "dom (tag_results self') \<subseteq> dom (tag_results self) \<union>
       {tag. \<exists>a tags. a \<in> set annotation \<and> get_tags_from_annotation (params a) = Inr tags
                \<and> tag \<in> set tags}"
proof -
  from assms obtain pair_tags table
    where l: "tag_loop add new annotation (tag_results self) = Inr table"
      and s: "self' = self\<lparr>pair_results := (pair_results self)
                  (pair \<mapsto> add (set pair_tags) (dd_get new (pair_results self) pair)),
               ref_results := (ref_results self)
                  (snd pair \<mapsto> add {} (dd_get new (ref_results self) (snd pair))),
               tag_results := table,
               all_results := add {''TOTAL''} (all_results self)\<rparr>"
    unfolding store_results_def by (auto simp: bind_res_eq_Inr)
  show "\<exists>T. pair_results self' =
              (pair_results self)(pair \<mapsto> add T (dd_get new (pair_results self) pair))"
    using s by auto
  show "ref_results self' =
              (ref_results self)(snd pair \<mapsto> add {} (dd_get new (ref_results self) (snd pair)))"
    using s by simp
  show "all_results self' = add {''TOTAL''} (all_results self)"
    using s by simp
  show "dom (tag_results self') \<subseteq> dom (tag_results self) \<union>
       {tag. \<exists>a tags. a \<in> set annotation \<and> get_tags_from_annotation (params a) = Inr tags
                \<and> tag \<in> set tags}"
    using tag_loop_dom [OF l] s by simp
qed

lemma TrackEvaluator_counts_eq:
  "TrackEvaluator_counts annotation match =
     (if annotation \<noteq> [] \<and> match \<noteq> [] then 1 else 0, 0,
      if annotation = [] \<and> match \<noteq> [] then 1 else 0,
      if annotation \<noteq> [] \<and> match = [] then 1 else 0)"
  by (simp add: TrackEvaluator_counts_def)


lemma run_calls_prefix_induct:
  assumes "run_calls f rest st = Inr final"
    and "I pre st"
    and "\<And>d pair a m tl st st'. I d st \<Longrightarrow> f pair a m st = Inr st' \<Longrightarrow>
            calls = d @ (pair, a, m) # tl \<Longrightarrow> I (d @ [(pair, a, m)]) st'"
    and "calls = pre @ rest"
  shows "I calls final"
  using assms(1,2,4)
proof (induction rest arbitrary: pre st)
  case Nil
  then show ?case by simp
next
  case (Cons c rest)
  obtain pair a m where c: "c = (pair, a, m)" by (cases c)
  from Cons.prems(1) obtain st' where f: "f pair a m st = Inr st'"
    and r: "run_calls f rest st' = Inr final"
    by (auto simp: c bind_res_eq_Inr)
  have "I (pre @ [(pair, a, m)]) st'"
    using assms(3) [OF Cons.prems(2) f] Cons.prems(3) c by simp
  from Cons.IH [OF r this] Cons.prems(3) c show ?case by simp
qed

lemma TrackEvaluator_evaluate_pair_effect:
  assumes "TrackEvaluator_evaluate_pair pair annotation match self = Inr self'"
  shows "\<exists>T. pair_results self' = (pair_results self)(pair \<mapsto>
            PositivesNegativesResults_add
              (fst (TrackEvaluator_counts annotation match))
              (fst (snd (TrackEvaluator_counts annotation match)))
              (fst (snd (snd (TrackEvaluator_counts annotation match))))
              (snd (snd (snd (TrackEvaluator_counts annotation match)))) T
              (dd_get PositivesNegativesResults_init (pair_results self) pair))"
    and "dom (ref_results self') = insert (snd pair) (dom (ref_results self))"
    and "all_results self' = PositivesNegativesResults_add
              (fst (TrackEvaluator_counts annotation match))
              (fst (snd (TrackEvaluator_counts annotation match)))
              (fst (snd (snd (TrackEvaluator_counts annotation match))))
              (snd (snd (snd (TrackEvaluator_counts annotation match)))) {''TOTAL''}
              (all_results self)"
    and "dom (tag_results self') \<subseteq> dom (tag_results self) \<union>
       {tag. \<exists>a tags. a \<in> set annotation \<and> get_tags_from_annotation (params a) = Inr tags
                \<and> tag \<in> set tags}"
proof -
  obtain tp up fp fn where c: "TrackEvaluator_counts annotation match = (tp, up, fp, fn)"
    by (cases "TrackEvaluator_counts annotation match") auto
  with assms have s: "store_results (PositivesNegativesResults_add tp up fp fn)
            PositivesNegativesResults_init pair annotation self = Inr self'"
    by (simp add: TrackEvaluator_evaluate_pair_def)
  note e = store_results_effect [OF s]
  show "\<exists>T. pair_results self' = (pair_results self)(pair \<mapsto>
            PositivesNegativesResults_add
              (fst (TrackEvaluator_counts annotation match))
              (fst (snd (TrackEvaluator_counts annotation match)))
              (fst (snd (snd (TrackEvaluator_counts annotation match))))
              (snd (snd (snd (TrackEvaluator_counts annotation match)))) T
              (dd_get PositivesNegativesResults_init (pair_results self) pair))"
    using e(1) by (simp add: c)
  show "dom (ref_results self') = insert (snd pair) (dom (ref_results self))"
    using e(2) by simp
  show "all_results self' = PositivesNegativesResults_add
              (fst (TrackEvaluator_counts annotation match))
              (fst (snd (TrackEvaluator_counts annotation match)))
              (fst (snd (snd (TrackEvaluator_counts annotation match))))
              (snd (snd (snd (TrackEvaluator_counts annotation match)))) {''TOTAL''}
              (all_results self)"
    using e(3) by (simp add: c)
  show "dom (tag_results self') \<subseteq> dom (tag_results self) \<union>
       {tag. \<exists>a tags. a \<in> set annotation \<and> get_tags_from_annotation (params a) = Inr tags
                \<and> tag \<in> set tags}"
    by (rule e(4))
qed


lemma track_invariant_init: "track_invariant [] TrackEvaluator_init"
  by (simp add: track_invariant_def TrackEvaluator_init_def evaluator_init_def
      PositivesNegativesResults_init_def)

lemma track_invariant_step:
  assumes inv: "track_invariant d st"
    and ev: "TrackEvaluator_evaluate_pair pair a m st = Inr st'"
    and fresh: "pair \<notin> fst ` set d"
  shows "track_invariant (d @ [(pair, a, m)]) st'"
proof -
  note e = TrackEvaluator_evaluate_pair_effect [OF ev]
  obtain tp up fp fn where c: "TrackEvaluator_counts a m = (tp, up, fp, fn)"
    by (cases "TrackEvaluator_counts a m") auto
  have up0: "up = 0" using c by (simp add: TrackEvaluator_counts_eq)
  from e(1) c obtain T where p: "pair_results st' = (pair_results st)(pair \<mapsto>
       PositivesNegativesResults_add tp up fp fn T
         (dd_get PositivesNegativesResults_init (pair_results st) pair))"
    by auto
  from inv fresh have "pair_results st pair = None"
    by (auto simp: track_invariant_def)
  then have new: "dd_get PositivesNegativesResults_init (pair_results st) pair =
      PositivesNegativesResults_init"
    by (simp add: dd_get_def)
  have i1: "dom (pair_results st') = fst ` set (d @ [(pair, a, m)])"
    using inv p by (auto simp: track_invariant_def)
  have i2: "dom (ref_results st') = (\<lambda>c. snd (fst c)) ` set (d @ [(pair, a, m)])"
    using inv e(2) by (auto simp: track_invariant_def)
  have i3: "dom (tag_results st') \<subseteq>
          {tag. \<exists>c \<in> set (d @ [(pair, a, m)]). \<exists>a tags. a \<in> set (fst (snd c))
                  \<and> get_tags_from_annotation (params a) = Inr tags \<and> tag \<in> set tags}"
  proof
    fix tag assume "tag \<in> dom (tag_results st')"
    with e(4) consider "tag \<in> dom (tag_results st)"
      | "\<exists>x tags. x \<in> set a \<and> get_tags_from_annotation (params x) = Inr tags \<and> tag \<in> set tags"
      by blast
    then show "tag \<in> {tag. \<exists>c \<in> set (d @ [(pair, a, m)]). \<exists>a tags. a \<in> set (fst (snd c))
                  \<and> get_tags_from_annotation (params a) = Inr tags \<and> tag \<in> set tags}"
    proof cases
      case 1
      with inv have "tag \<in> {tag. \<exists>c \<in> set d. \<exists>a tags. a \<in> set (fst (snd c))
                  \<and> get_tags_from_annotation (params a) = Inr tags \<and> tag \<in> set tags}"
        unfolding track_invariant_def by blast
      then show ?thesis by auto
    next
      case 2
      then show ?thesis by auto
    qed
  qed
  have i4: "\<forall>c \<in> set (d @ [(pair, a, m)]). \<exists>r. pair_results st' (fst c) = Some r
            \<and> (m_tp r, m_up r, m_fp r, m_fn r) = TrackEvaluator_counts (fst (snd c)) (snd (snd c))"
  proof
    fix x assume "x \<in> set (d @ [(pair, a, m)])"
    then consider "x \<in> set d" | "x = (pair, a, m)" by auto
    then show "\<exists>r. pair_results st' (fst x) = Some r
            \<and> (m_tp r, m_up r, m_fp r, m_fn r) = TrackEvaluator_counts (fst (snd x)) (snd (snd x))"
    proof cases
      case 1
      with fresh have "fst x \<noteq> pair" by auto
      with 1 inv p show ?thesis by (simp add: track_invariant_def)
    next
      case 2
      have z: "m_tp PositivesNegativesResults_init = 0" "m_up PositivesNegativesResults_init = 0"
        "m_fp PositivesNegativesResults_init = 0" "m_fn PositivesNegativesResults_init = 0"
        by (simp_all add: PositivesNegativesResults_init_def)
      from 2 show ?thesis
        by (simp add: p new c PositivesNegativesResults_add_counts z)
    qed
  qed
  have i5: "m_tp (all_results st') =
          sum_list (map (\<lambda>c. fst (TrackEvaluator_counts (fst (snd c)) (snd (snd c)))) (d @ [(pair, a, m)]))"
    "m_up (all_results st') = 0"
    "m_fp (all_results st') =
          sum_list (map (\<lambda>c. fst (snd (snd (TrackEvaluator_counts (fst (snd c)) (snd (snd c)))))) (d @ [(pair, a, m)]))"
    "m_fn (all_results st') =
          sum_list (map (\<lambda>c. snd (snd (snd (TrackEvaluator_counts (fst (snd c)) (snd (snd c)))))) (d @ [(pair, a, m)]))"
    "length (m_recalls (all_results st')) = length (d @ [(pair, a, m)])"
    using inv unfolding track_invariant_def
    by (simp_all add: e(3) c up0 PositivesNegativesResults_add_counts)
  show ?thesis
    unfolding track_invariant_def using i1 i2 i3 i4 i5 by blast
qed

lemma track_invariant_final:
  assumes "distinct (map fst calls)"
    and "run_calls TrackEvaluator_evaluate_pair calls TrackEvaluator_init = Inr final"
  shows "track_invariant calls final"
proof (rule run_calls_prefix_induct [where I = track_invariant and pre = "[]", OF assms(2)])
  show "track_invariant [] TrackEvaluator_init" by (rule track_invariant_init)
  show "calls = [] @ calls" by simp
  fix d pair a m tl st st'
  assume i: "track_invariant d st" and e: "TrackEvaluator_evaluate_pair pair a m st = Inr st'"
    and c: "calls = d @ (pair, a, m) # tl"
  from assms(1) c have "pair \<notin> fst ` set d" by auto
  with i e show "track_invariant (d @ [(pair, a, m)]) st'" by (rule track_invariant_step)
qed



lemma map_calls_by_key:
  assumes "distinct (dict_keys annotations)" and "distinct (dict_keys matches)"
  shows "map (\<lambda>c. g (fst (snd c)) (snd (snd c))) (evaluate_calls annotations matches) =
         map (\<lambda>k. g (get_or_empty annotations k) (get_or_empty matches k))
           (map fst (evaluate_calls annotations matches))"
  using evaluate_calls_entries [OF assms] by (simp add: comp_def)

lemma sum_calls_card:
  assumes "distinct (dict_keys annotations)" and "distinct (dict_keys matches)"
  shows "sum_list (map (\<lambda>c. if P (fst (snd c)) (snd (snd c)) then (1::int) else 0)
             (evaluate_calls annotations matches)) =
         int (card {pair \<in> set (dict_keys annotations) \<union> set (dict_keys matches).
                      P (get_or_empty annotations pair) (get_or_empty matches pair)})"
proof -
  have "sum_list (map (\<lambda>c. if P (fst (snd c)) (snd (snd c)) then (1::int) else 0)
             (evaluate_calls annotations matches)) =
        sum_list (map (\<lambda>k. if P (get_or_empty annotations k) (get_or_empty matches k)
                            then (1::int) else 0)
             (map fst (evaluate_calls annotations matches)))"
    by (rule arg_cong [where f = sum_list])
      (rule map_calls_by_key [OF assms, of "\<lambda>a m. if P a m then (1::int) else 0"])
  also have "\<dots> = int (card {k \<in> set (map fst (evaluate_calls annotations matches)).
                      P (get_or_empty annotations k) (get_or_empty matches k)})"
    by (rule sum_indicator_card) (rule evaluate_calls_distinct [OF assms])
  finally show ?thesis by (simp only: evaluate_calls_keys)
qed

text \<open>
  Claim C2. The counts of a pair are \<open>tp = 1\<close> exactly when both lists are non-empty,
  \<open>fn = 1\<close> exactly when only the annotation list is, \<open>fp = 1\<close> exactly when only the
  match list is, and \<open>up = 0\<close>. After \<^verbatim>\<open>evaluate\<close> on a fresh track-level evaluator the
  pair table has exactly the pairs of the two dictionaries, each with the counts of its
  two lists; the reference table has exactly their reference identifiers; the tag table
  has only tags of annotation segments of those pairs; and the global table has received
  one observation per pair and holds the number of pairs of each kind. A pair absent from
  both dictionaries is in no table.
\<close>

theorem track_evaluator_counts:
  assumes "distinct (dict_keys annotations)" and "distinct (dict_keys matches)"
    and "evaluate TrackEvaluator_evaluate_pair annotations matches TrackEvaluator_init = Inr final"
  shows "TrackEvaluator_counts annotation match =
           (if annotation \<noteq> [] \<and> match \<noteq> [] then 1 else 0, 0,
            if annotation = [] \<and> match \<noteq> [] then 1 else 0,
            if annotation \<noteq> [] \<and> match = [] then 1 else 0)
       \<and> dom (pair_results final) = set (dict_keys annotations) \<union> set (dict_keys matches)
       \<and> (\<forall>pair \<in> set (dict_keys annotations) \<union> set (dict_keys matches).
             \<exists>r. pair_results final pair = Some r
               \<and> (m_tp r, m_up r, m_fp r, m_fn r) =
                   TrackEvaluator_counts (get_or_empty annotations pair) (get_or_empty matches pair))
       \<and> dom (ref_results final) = snd ` (set (dict_keys annotations) \<union> set (dict_keys matches))
       \<and> dom (tag_results final) \<subseteq>
           {tag. \<exists>pair \<in> set (dict_keys annotations). \<exists>a tags.
                   a \<in> set (get_or_empty annotations pair)
                   \<and> get_tags_from_annotation (params a) = Inr tags \<and> tag \<in> set tags}
       \<and> m_tp (all_results final) =
           int (card {pair \<in> set (dict_keys annotations) \<union> set (dict_keys matches).
                        get_or_empty annotations pair \<noteq> [] \<and> get_or_empty matches pair \<noteq> []})
       \<and> m_up (all_results final) = 0
       \<and> m_fp (all_results final) =
           int (card {pair \<in> set (dict_keys annotations) \<union> set (dict_keys matches).
                        get_or_empty annotations pair = [] \<and> get_or_empty matches pair \<noteq> []})
       \<and> m_fn (all_results final) =
           int (card {pair \<in> set (dict_keys annotations) \<union> set (dict_keys matches).
                        get_or_empty annotations pair \<noteq> [] \<and> get_or_empty matches pair = []})
       \<and> length (m_recalls (all_results final)) =
           card (set (dict_keys annotations) \<union> set (dict_keys matches))"
proof -
  let ?calls = "evaluate_calls annotations matches"
  let ?U = "set (dict_keys annotations) \<union> set (dict_keys matches)"
  note d = evaluate_calls_distinct [OF assms(1,2)]
  note ent = evaluate_calls_entries [OF assms(1,2)]
  have keys: "fst ` set ?calls = ?U"
    using evaluate_calls_keys [of annotations matches] by simp
  from assms(3) have "run_calls TrackEvaluator_evaluate_pair ?calls TrackEvaluator_init = Inr final"
    by (simp add: evaluate_run_calls)
  from track_invariant_final [OF d this] have inv: "track_invariant ?calls final" .
  have c1: "dom (pair_results final) = ?U"
    using inv keys by (simp add: track_invariant_def)
  have c2: "\<forall>pair \<in> ?U. \<exists>r. pair_results final pair = Some r
               \<and> (m_tp r, m_up r, m_fp r, m_fn r) =
                   TrackEvaluator_counts (get_or_empty annotations pair) (get_or_empty matches pair)"
  proof
    fix pair assume "pair \<in> ?U"
    with keys have "pair \<in> fst ` set ?calls" by simp
    then obtain c where c: "c \<in> set ?calls" "fst c = pair"
      by (elim imageE) simp
    from inv c(1) obtain r where "pair_results final (fst c) = Some r"
      "(m_tp r, m_up r, m_fp r, m_fn r) = TrackEvaluator_counts (fst (snd c)) (snd (snd c))"
      unfolding track_invariant_def by blast
    with ent [OF c(1)] c(2) show "\<exists>r. pair_results final pair = Some r
               \<and> (m_tp r, m_up r, m_fp r, m_fn r) =
                   TrackEvaluator_counts (get_or_empty annotations pair) (get_or_empty matches pair)"
      by auto
  qed
  have c3: "dom (ref_results final) = snd ` ?U"
  proof -
    have "dom (ref_results final) = (\<lambda>c. snd (fst c)) ` set ?calls"
      using inv by (simp add: track_invariant_def)
    also have "\<dots> = snd ` fst ` set ?calls" by (simp add: image_image)
    finally show ?thesis by (simp only: keys)
  qed
  have c4: "dom (tag_results final) \<subseteq>
           {tag. \<exists>pair \<in> set (dict_keys annotations). \<exists>a tags.
                   a \<in> set (get_or_empty annotations pair)
                   \<and> get_tags_from_annotation (params a) = Inr tags \<and> tag \<in> set tags}"
  proof
    fix tag assume "tag \<in> dom (tag_results final)"
    with inv obtain c a tags where c: "c \<in> set ?calls" and a: "a \<in> set (fst (snd c))"
      and t: "get_tags_from_annotation (params a) = Inr tags" "tag \<in> set tags"
      unfolding track_invariant_def by blast
    from a ent(1) [OF c] have a': "a \<in> set (get_or_empty annotations (fst c))" by simp
    have "fst c \<in> set (dict_keys annotations)"
    proof (rule ccontr)
      assume "fst c \<notin> set (dict_keys annotations)"
      then have "get_or_empty annotations (fst c) = []" by (rule get_or_empty_absent)
      with a' show False by simp
    qed
    with a' t show "tag \<in> {tag. \<exists>pair \<in> set (dict_keys annotations). \<exists>a tags.
                   a \<in> set (get_or_empty annotations pair)
                   \<and> get_tags_from_annotation (params a) = Inr tags \<and> tag \<in> set tags}"
      by blast
  qed
  have tp: "fst (TrackEvaluator_counts a m) = (if a \<noteq> [] \<and> m \<noteq> [] then 1 else 0)"
    and fp: "fst (snd (snd (TrackEvaluator_counts a m))) = (if a = [] \<and> m \<noteq> [] then 1 else 0)"
    and fn: "snd (snd (snd (TrackEvaluator_counts a m))) = (if a \<noteq> [] \<and> m = [] then 1 else 0)"
    for a m :: "segment list"
    by (simp_all add: TrackEvaluator_counts_eq)
  have c5: "m_tp (all_results final) =
           int (card {pair \<in> ?U. get_or_empty annotations pair \<noteq> [] \<and> get_or_empty matches pair \<noteq> []})"
    using inv sum_calls_card [OF assms(1,2), of "\<lambda>a m. a \<noteq> [] \<and> m \<noteq> []"]
    by (simp add: track_invariant_def tp)
  have c6: "m_up (all_results final) = 0"
    using inv by (simp add: track_invariant_def)
  have c7: "m_fp (all_results final) =
           int (card {pair \<in> ?U. get_or_empty annotations pair = [] \<and> get_or_empty matches pair \<noteq> []})"
    using inv sum_calls_card [OF assms(1,2), of "\<lambda>a m. a = [] \<and> m \<noteq> []"]
    by (simp add: track_invariant_def fp)
  have c8: "m_fn (all_results final) =
           int (card {pair \<in> ?U. get_or_empty annotations pair \<noteq> [] \<and> get_or_empty matches pair = []})"
    using inv sum_calls_card [OF assms(1,2), of "\<lambda>a m. a \<noteq> [] \<and> m = []"]
    by (simp add: track_invariant_def fn)
  have c9: "length (m_recalls (all_results final)) = card ?U"
  proof -
    have "length (m_recalls (all_results final)) = length (map fst ?calls)"
      using inv by (simp add: track_invariant_def)
    also have "\<dots> = card (set (map fst ?calls))"
      using d by (simp only: distinct_card)
    finally show ?thesis by (simp only: evaluate_calls_keys)
  qed
  show ?thesis
    using TrackEvaluator_counts_eq [of annotation match] c1 c2 c3 c4 c5 c6 c7 c8 c9
    by blast
qed

lemma scenario_tags:
  "get_tags_from_annotation (params scenario_segment) =
     Inr [''pitch:exact'', ''tempo:exact'', ''speed:exact'', ''noise:none'',
          ''merge_prev:begin'', ''merge_next:end'']"
  by (simp add: scenario_segment_def eval_tags)

lemma track_scenario_runs: "\<exists>final. evaluate TrackEvaluator_evaluate_pair
         [((''q1'', ''r1''), [scenario_segment]), ((''q2'', ''r1''), [scenario_segment])]
         [((''q1'', ''r1''), [scenario_segment]), ((''q3'', ''r2''), [scenario_segment])]
         TrackEvaluator_init = Inr final"
  by (simp add: evaluate_def dict_keys_def TrackEvaluator_evaluate_pair_def
      TrackEvaluator_counts_def store_results_def scenario_tags)

theorem track_evaluator_counts_witness:
  "\<exists>final. evaluate TrackEvaluator_evaluate_pair
         [((''q1'', ''r1''), [scenario_segment]), ((''q2'', ''r1''), [scenario_segment])]
         [((''q1'', ''r1''), [scenario_segment]), ((''q3'', ''r2''), [scenario_segment])]
         TrackEvaluator_init = Inr final
     \<and> dom (pair_results final) = {(''q1'', ''r1''), (''q2'', ''r1''), (''q3'', ''r2'')}
     \<and> dom (ref_results final) = {''r1'', ''r2''}
     \<and> m_up (all_results final) = 0
     \<and> length (m_recalls (all_results final)) = 3"
proof -
  let ?A = "[((''q1'', ''r1''), [scenario_segment]), ((''q2'', ''r1''), [scenario_segment])]"
  let ?M = "[((''q1'', ''r1''), [scenario_segment]), ((''q3'', ''r2''), [scenario_segment])]"
  have a: "distinct (dict_keys ?A)" and m: "distinct (dict_keys ?M)"
    by (simp_all add: dict_keys_def)
  from track_scenario_runs obtain final
    where f: "evaluate TrackEvaluator_evaluate_pair ?A ?M TrackEvaluator_init = Inr final"
    by blast
  note t = track_evaluator_counts [OF a m f]
  have u: "set (dict_keys ?A) \<union> set (dict_keys ?M) =
      {(''q1'', ''r1''), (''q2'', ''r1''), (''q3'', ''r2'')}"
    by (auto simp: dict_keys_def)
  have c: "card {(''q1'', ''r1''), (''q2'', ''r1''), (''q3'', ''r2'')} = 3"
    by simp
  from t have "dom (pair_results final) = {(''q1'', ''r1''), (''q2'', ''r1''), (''q3'', ''r2'')}"
    and "dom (ref_results final) = snd ` {(''q1'', ''r1''), (''q2'', ''r1''), (''q3'', ''r2'')}"
    and "m_up (all_results final) = 0"
    and "length (m_recalls (all_results final)) = 3"
    unfolding u c by blast+
  with f show ?thesis by auto
qed

section \<open>Segment-level evaluators: the unions of overlaps\<close>

lemma fold_index:
  "fold (\<lambda>i. f (xs ! i)) [0..<length xs] s = fold f xs s"
proof -
  have "fold (\<lambda>i. f (xs ! i)) [0..<length xs] s = fold f (map (\<lambda>i. xs ! i) [0..<length xs]) s"
    by (simp add: fold_map comp_def)
  then show ?thesis by (simp add: map_nth)
qed

lemma overlaps_nth:
  "m < length match \<Longrightarrow> a < length annotation \<Longrightarrow>
     overlaps annotation match ! m ! a = overlap (annotation ! a) (match ! m)"
  by (simp add: overlaps_def)

lemma column_unions_fold:
  assumes "a < length annotation"
  shows "column_unions (overlaps annotation match) (length match) a =
           fold (\<lambda>m. add_double_overlap (overlap (annotation ! a) m)) match
             (empty_interval, empty_interval)"
proof -
  have "fold (\<lambda>m. add_double_overlap (overlaps annotation match ! m ! a)) [0..<length match] s =
        fold (\<lambda>m. add_double_overlap (overlap (annotation ! a) (match ! m))) [0..<length match] s"
    for s
    by (rule fold_cong) (simp_all add: overlaps_nth assms)
  then show ?thesis
    unfolding column_unions_def
    by (simp add: fold_index [where f = "\<lambda>m. add_double_overlap (overlap (annotation ! a) m)"])
qed

lemma row_unions_fold:
  assumes "m < length match"
  shows "row_unions (overlaps annotation match) (length annotation) m =
           fold (\<lambda>a. add_double_overlap (overlap a (match ! m))) annotation
             (empty_interval, empty_interval)"
proof -
  have "fold (\<lambda>a. add_double_overlap (overlaps annotation match ! m ! a)) [0..<length annotation] s =
        fold (\<lambda>a. add_double_overlap (overlap (annotation ! a) (match ! m))) [0..<length annotation] s"
    for s
    by (rule fold_cong) (simp_all add: overlaps_nth assms)
  then show ?thesis
    unfolding row_unions_def
    by (simp add: fold_index [where f = "\<lambda>a. add_double_overlap (overlap a (match ! m))"])
qed

lemma wf_overlap [simp]: "wf_interval (fst (overlap a m))" "wf_interval (snd (overlap a m))"
  by (simp_all add: overlap_def)

lemma cells_overlap [simp]:
  "cells (fst (overlap a m)) = cells (reference_interval a) \<inter> cells (reference_interval m)"
  "cells (snd (overlap a m)) = cells (query_interval a) \<inter> cells (query_interval m)"
  by (simp_all add: overlap_def)

lemma add_double_overlap_overlap:
  "add_double_overlap (overlap a m) u =
     (if double_overlap a m
      then (interval_union (fst u) (fst (overlap a m)), interval_union (snd u) (snd (overlap a m)))
      else u)"
  by (simp add: add_double_overlap_def double_overlap_def wf_is_empty)

lemma fold_double_overlap_match:
  assumes "wf_interval (fst u)" "wf_interval (snd u)"
  shows "wf_interval (fst (fold (\<lambda>m. add_double_overlap (overlap a m)) match u))
       \<and> wf_interval (snd (fold (\<lambda>m. add_double_overlap (overlap a m)) match u))
       \<and> cells (fst (fold (\<lambda>m. add_double_overlap (overlap a m)) match u)) =
           cells (fst u) \<union> (\<Union>m \<in> {m \<in> set match. double_overlap a m}.
              cells (reference_interval a) \<inter> cells (reference_interval m))
       \<and> cells (snd (fold (\<lambda>m. add_double_overlap (overlap a m)) match u)) =
           cells (snd u) \<union> (\<Union>m \<in> {m \<in> set match. double_overlap a m}.
              cells (query_interval a) \<inter> cells (query_interval m))"
  using assms
proof (induction match arbitrary: u)
  case Nil
  then show ?case by simp
next
  case (Cons m match)
  let ?u = "add_double_overlap (overlap a m) u"
  have w: "wf_interval (fst ?u)" "wf_interval (snd ?u)"
    using Cons.prems by (simp_all add: add_double_overlap_overlap)
  have c: "cells (fst ?u) = cells (fst u) \<union> (if double_overlap a m
              then cells (reference_interval a) \<inter> cells (reference_interval m) else {})"
    "cells (snd ?u) = cells (snd u) \<union> (if double_overlap a m
              then cells (query_interval a) \<inter> cells (query_interval m) else {})"
    by (simp_all add: add_double_overlap_overlap)
  from Cons.IH [OF w] show ?case
    unfolding fold_simps c by (auto split: if_splits)
qed

lemma fold_double_overlap_annotation:
  assumes "wf_interval (fst u)" "wf_interval (snd u)"
  shows "wf_interval (fst (fold (\<lambda>a. add_double_overlap (overlap a m)) annotation u))
       \<and> wf_interval (snd (fold (\<lambda>a. add_double_overlap (overlap a m)) annotation u))
       \<and> cells (fst (fold (\<lambda>a. add_double_overlap (overlap a m)) annotation u)) =
           cells (fst u) \<union> (\<Union>a \<in> {a \<in> set annotation. double_overlap a m}.
              cells (reference_interval a) \<inter> cells (reference_interval m))
       \<and> cells (snd (fold (\<lambda>a. add_double_overlap (overlap a m)) annotation u)) =
           cells (snd u) \<union> (\<Union>a \<in> {a \<in> set annotation. double_overlap a m}.
              cells (query_interval a) \<inter> cells (query_interval m))"
  using assms
proof (induction annotation arbitrary: u)
  case Nil
  then show ?case by simp
next
  case (Cons a annotation)
  let ?u = "add_double_overlap (overlap a m) u"
  have w: "wf_interval (fst ?u)" "wf_interval (snd ?u)"
    using Cons.prems by (simp_all add: add_double_overlap_overlap)
  have c: "cells (fst ?u) = cells (fst u) \<union> (if double_overlap a m
              then cells (reference_interval a) \<inter> cells (reference_interval m) else {})"
    "cells (snd ?u) = cells (snd u) \<union> (if double_overlap a m
              then cells (query_interval a) \<inter> cells (query_interval m) else {})"
    by (simp_all add: add_double_overlap_overlap)
  from Cons.IH [OF w] show ?case
    unfolding fold_simps c by (auto split: if_splits)
qed


lemma length_mono:
  "wf_interval x \<Longrightarrow> wf_interval y \<Longrightarrow> cells x \<subseteq> cells y \<Longrightarrow>
     get_interval_length x \<le> get_interval_length y"
  by (simp add: length_card_cells card_mono)

lemma length_nonneg: "wf_interval x \<Longrightarrow> 0 \<le> get_interval_length x"
  by (simp add: length_card_cells)

lemma length_zero: "wf_interval x \<Longrightarrow> cells x = {} \<Longrightarrow> get_interval_length x = 0"
  by (simp add: length_card_cells)

lemma wf_empty_interval [simp]: "wf_interval empty_interval"
  by (simp add: empty_interval_def)

lemma cells_empty_interval [simp]: "cells empty_interval = {}"
  by (simp add: empty_interval_def)

lemma column_unions_cells:
  assumes "a < length annotation"
  shows "wf_interval (fst (column_unions (overlaps annotation match) (length match) a))"
    and "wf_interval (snd (column_unions (overlaps annotation match) (length match) a))"
    and "cells (fst (column_unions (overlaps annotation match) (length match) a)) =
           (\<Union>m \<in> {m \<in> set match. double_overlap (annotation ! a) m}.
              cells (reference_interval (annotation ! a)) \<inter> cells (reference_interval m))"
    and "cells (snd (column_unions (overlaps annotation match) (length match) a)) =
           (\<Union>m \<in> {m \<in> set match. double_overlap (annotation ! a) m}.
              cells (query_interval (annotation ! a)) \<inter> cells (query_interval m))"
  using fold_double_overlap_match [of "(empty_interval, empty_interval)" "annotation ! a" match]
  by (simp_all add: column_unions_fold [OF assms])

lemma row_unions_cells:
  assumes "m < length match"
  shows "wf_interval (fst (row_unions (overlaps annotation match) (length annotation) m))"
    and "wf_interval (snd (row_unions (overlaps annotation match) (length annotation) m))"
    and "cells (fst (row_unions (overlaps annotation match) (length annotation) m)) =
           (\<Union>a \<in> {a \<in> set annotation. double_overlap a (match ! m)}.
              cells (reference_interval a) \<inter> cells (reference_interval (match ! m)))"
    and "cells (snd (row_unions (overlaps annotation match) (length annotation) m)) =
           (\<Union>a \<in> {a \<in> set annotation. double_overlap a (match ! m)}.
              cells (query_interval a) \<inter> cells (query_interval (match ! m)))"
  using fold_double_overlap_annotation [of "(empty_interval, empty_interval)" "match ! m" annotation]
  by (simp_all add: row_unions_fold [OF assms])

lemma sum_list_index: "sum_list (map g xs) = sum_list (map (\<lambda>i. g (xs ! i)) [0..<length xs])"
proof -
  have "map g xs = map g (map (\<lambda>i. xs ! i) [0..<length xs])" by (simp add: map_nth)
  then show ?thesis by (simp add: comp_def)
qed

lemma sum_list_index_le:
  fixes f :: "nat \<Rightarrow> int"
  assumes "\<And>i. i < length xs \<Longrightarrow> f i \<le> g (xs ! i)"
  shows "sum_list (map f [0..<length xs]) \<le> sum_list (map g xs)"
  unfolding sum_list_index [of g xs] using assms by (intro sum_list_mono) simp

lemma sum_list_index_nonneg:
  fixes f :: "nat \<Rightarrow> int"
  assumes "\<And>i. i < n \<Longrightarrow> 0 \<le> f i"
  shows "0 \<le> sum_list (map f [0..<n])"
  using assms by (intro sum_list_nonneg) auto

lemma ratio_or_bounds:
  assumes "0 \<le> x" "x \<le> y" "0 \<le> d" "d \<le> 1"
  shows "0 \<le> ratio_or d x y" "ratio_or d x y \<le> 1"
  using assms by (simp_all add: ratio_or_def divide_le_eq_1)

lemma ratio_or_zero: "ratio_or 0 0 y = 0"
  by (simp add: ratio_or_def)


lemma column_lengths:
  assumes "\<forall>a \<in> set annotation. valid_segment a" and "a < length annotation"
  shows "0 \<le> get_interval_length (fst (column_unions (overlaps annotation match) (length match) a))"
    and "get_interval_length (fst (column_unions (overlaps annotation match) (length match) a))
           \<le> get_interval_length (reference_interval (annotation ! a))"
    and "0 \<le> get_interval_length (snd (column_unions (overlaps annotation match) (length match) a))"
    and "get_interval_length (snd (column_unions (overlaps annotation match) (length match) a))
           \<le> get_interval_length (query_interval (annotation ! a))"
proof -
  note c = column_unions_cells [OF assms(2), of match]
  from assms have v: "wf_interval (reference_interval (annotation ! a))"
    "wf_interval (query_interval (annotation ! a))"
    by (simp_all add: valid_segment_def)
  show "0 \<le> get_interval_length (fst (column_unions (overlaps annotation match) (length match) a))"
    by (rule length_nonneg [OF c(1)])
  show "0 \<le> get_interval_length (snd (column_unions (overlaps annotation match) (length match) a))"
    by (rule length_nonneg [OF c(2)])
  show "get_interval_length (fst (column_unions (overlaps annotation match) (length match) a))
           \<le> get_interval_length (reference_interval (annotation ! a))"
    by (rule length_mono [OF c(1) v(1)]) (auto simp: c(3))
  show "get_interval_length (snd (column_unions (overlaps annotation match) (length match) a))
           \<le> get_interval_length (query_interval (annotation ! a))"
    by (rule length_mono [OF c(2) v(2)]) (auto simp: c(4))
qed

lemma row_lengths:
  assumes "\<forall>m \<in> set match. valid_segment m" and "m < length match"
  shows "0 \<le> get_interval_length (fst (row_unions (overlaps annotation match) (length annotation) m))"
    and "get_interval_length (fst (row_unions (overlaps annotation match) (length annotation) m))
           \<le> get_interval_length (reference_interval (match ! m))"
    and "0 \<le> get_interval_length (snd (row_unions (overlaps annotation match) (length annotation) m))"
    and "get_interval_length (snd (row_unions (overlaps annotation match) (length annotation) m))
           \<le> get_interval_length (query_interval (match ! m))"
proof -
  note c = row_unions_cells [OF assms(2), of annotation]
  from assms have v: "wf_interval (reference_interval (match ! m))"
    "wf_interval (query_interval (match ! m))"
    by (simp_all add: valid_segment_def)
  show "0 \<le> get_interval_length (fst (row_unions (overlaps annotation match) (length annotation) m))"
    by (rule length_nonneg [OF c(1)])
  show "0 \<le> get_interval_length (snd (row_unions (overlaps annotation match) (length annotation) m))"
    by (rule length_nonneg [OF c(2)])
  show "get_interval_length (fst (row_unions (overlaps annotation match) (length annotation) m))
           \<le> get_interval_length (reference_interval (match ! m))"
    by (rule length_mono [OF c(1) v(1)]) (auto simp: c(3))
  show "get_interval_length (snd (row_unions (overlaps annotation match) (length annotation) m))
           \<le> get_interval_length (query_interval (match ! m))"
    by (rule length_mono [OF c(2) v(2)]) (auto simp: c(4))
qed

lemma unit_product:
  fixes x y :: real
  assumes "0 \<le> x" "x \<le> 1" "0 \<le> y" "y \<le> 1"
  shows "0 \<le> 1 * x * y" "1 * x * y \<le> 1"
  using assms by (simp_all add: mult_le_one)

lemma recall_bounds:
  assumes "\<forall>a \<in> set annotation. valid_segment a"
  shows "0 \<le> fst (bounding_box_scores annotation match)"
    and "fst (bounding_box_scores annotation match) \<le> 1"
proof -
  let ?col = "column_unions (overlaps annotation match) (length match)"
  let ?Ar = "sum_list (map (\<lambda>a. get_interval_length (fst (?col a))) [0..<length annotation])"
  let ?Aq = "sum_list (map (\<lambda>a. get_interval_length (snd (?col a))) [0..<length annotation])"
  let ?Br = "sum_list (map (\<lambda>x. get_interval_length (reference_interval x)) annotation)"
  let ?Bq = "sum_list (map (\<lambda>x. get_interval_length (query_interval x)) annotation)"
  note l = column_lengths [OF assms, of _ match]
  have r: "0 \<le> ?Ar" "?Ar \<le> ?Br"
    using l(1,2) by (auto intro!: sum_list_index_nonneg sum_list_index_le)
  have q: "0 \<le> ?Aq" "?Aq \<le> ?Bq"
    using l(3,4) by (auto intro!: sum_list_index_nonneg sum_list_index_le)
  have eq: "fst (bounding_box_scores annotation match) =
      1 * ratio_or 0 ?Ar ?Br * ratio_or 0 ?Aq ?Bq"
    by (simp add: bounding_box_scores_def Let_def comp_def)
  show "0 \<le> fst (bounding_box_scores annotation match)"
    unfolding eq using ratio_or_bounds [OF r] ratio_or_bounds [OF q]
    by (intro unit_product) simp_all
  show "fst (bounding_box_scores annotation match) \<le> 1"
    unfolding eq using ratio_or_bounds [OF r] ratio_or_bounds [OF q]
    by (intro unit_product) simp_all
qed

lemma precision_bounds:
  assumes "\<forall>m \<in> set match. valid_segment m"
  shows "0 \<le> snd (bounding_box_scores annotation match)"
    and "snd (bounding_box_scores annotation match) \<le> 1"
proof -
  let ?row = "row_unions (overlaps annotation match) (length annotation)"
  let ?Ar = "sum_list (map (\<lambda>m. get_interval_length (fst (?row m))) [0..<length match])"
  let ?Aq = "sum_list (map (\<lambda>m. get_interval_length (snd (?row m))) [0..<length match])"
  let ?Br = "sum_list (map (\<lambda>x. get_interval_length (reference_interval x)) match)"
  let ?Bq = "sum_list (map (\<lambda>x. get_interval_length (query_interval x)) match)"
  note l = row_lengths [OF assms, of _ annotation]
  have r: "0 \<le> ?Ar" "?Ar \<le> ?Br"
    using l(1,2) by (auto intro!: sum_list_index_nonneg sum_list_index_le)
  have q: "0 \<le> ?Aq" "?Aq \<le> ?Bq"
    using l(3,4) by (auto intro!: sum_list_index_nonneg sum_list_index_le)
  have eq: "snd (bounding_box_scores annotation match) =
      1 * ratio_or 1 ?Ar ?Br * ratio_or 1 ?Aq ?Bq"
    by (simp add: bounding_box_scores_def Let_def comp_def)
  show "0 \<le> snd (bounding_box_scores annotation match)"
    unfolding eq using ratio_or_bounds [OF r] ratio_or_bounds [OF q]
    by (intro unit_product) simp_all
  show "snd (bounding_box_scores annotation match) \<le> 1"
    unfolding eq using ratio_or_bounds [OF r] ratio_or_bounds [OF q]
    by (intro unit_product) simp_all
qed

lemma recall_zero:
  assumes "\<forall>a \<in> set annotation. \<forall>m \<in> set match. \<not> double_overlap a m"
  shows "fst (bounding_box_scores annotation match) = 0"
proof -
  let ?col = "column_unions (overlaps annotation match) (length match)"
  have "get_interval_length (fst (?col a)) = 0" if "a < length annotation" for a
  proof -
    note c = column_unions_cells [OF that, of match]
    have "cells (fst (?col a)) = {}"
      unfolding c(3) using assms that by auto
    with c(1) show ?thesis by (rule length_zero)
  qed
  then have m: "map (\<lambda>a. get_interval_length (fst (?col a))) [0..<length annotation] =
      map (\<lambda>a. 0) [0..<length annotation]"
    by (intro map_cong) simp_all
  have "sum_list (map (\<lambda>a. get_interval_length (fst (?col a))) [0..<length annotation]) = 0"
    unfolding m by simp
  then show ?thesis
    by (simp add: bounding_box_scores_def Let_def comp_def ratio_or_zero)
qed

lemma precision_no_match: "snd (bounding_box_scores annotation []) = 1"
  by (simp add: bounding_box_scores_def Let_def ratio_or_def)


text \<open>
  Claim C5. For annotation and match lists of valid segments the recall and the precision
  that \<^verbatim>\<open>BoundingBoxSegmentEvaluator._evaluate_pair\<close> computes lie between 0 and 1; the
  recall is 0 when no annotation segment overlaps doubly with a match segment; the
  precision is 1 when the match list is empty; and these two numbers are what the call
  appends to the global accumulator.
\<close>

theorem bounding_box_scores_bounds:
  assumes "\<forall>a \<in> set annotation. valid_segment a" and "\<forall>m \<in> set match. valid_segment m"
  shows "0 \<le> fst (bounding_box_scores annotation match)
       \<and> fst (bounding_box_scores annotation match) \<le> 1
       \<and> 0 \<le> snd (bounding_box_scores annotation match)
       \<and> snd (bounding_box_scores annotation match) \<le> 1
       \<and> ((\<forall>a \<in> set annotation. \<forall>m \<in> set match. \<not> double_overlap a m)
            \<longrightarrow> fst (bounding_box_scores annotation match) = 0)
       \<and> (match = [] \<longrightarrow> snd (bounding_box_scores annotation match) = 1)
       \<and> (BoundingBoxSegmentEvaluator_evaluate_pair pair annotation match self = Inr self'
            \<longrightarrow> m_recalls (all_results self') =
                  m_recalls (all_results self) @ [fst (bounding_box_scores annotation match)]
              \<and> m_precisions (all_results self') =
                  m_precisions (all_results self) @ [snd (bounding_box_scores annotation match)])"
proof -
  have stored: "m_recalls (all_results self') =
                  m_recalls (all_results self) @ [fst (bounding_box_scores annotation match)]
              \<and> m_precisions (all_results self') =
                  m_precisions (all_results self) @ [snd (bounding_box_scores annotation match)]"
    if "BoundingBoxSegmentEvaluator_evaluate_pair pair annotation match self = Inr self'"
  proof -
    obtain recall precision where b: "bounding_box_scores annotation match = (recall, precision)"
      by (cases "bounding_box_scores annotation match")
    with that have "store_results (RecallPrecisionResults_add recall precision)
            RecallPrecisionResults_init pair annotation self = Inr self'"
      by (simp add: BoundingBoxSegmentEvaluator_evaluate_pair_def)
    from store_results_effect(3) [OF this] b show ?thesis
      by (simp add: RecallPrecisionResults_add_def)
  qed
  show ?thesis
    using recall_bounds [OF assms(1), of match] precision_bounds [OF assms(2), of annotation]
      recall_zero [of annotation match] precision_no_match [of annotation] stored
    by blast
qed

lemma valid_scenario_segment: "valid_segment scenario_segment"
  by (simp add: valid_segment_def scenario_segment_def)

theorem bounding_box_scores_bounds_witness:
  "valid_segment scenario_segment
   \<and> fst (bounding_box_scores [scenario_segment] []) = 0
   \<and> snd (bounding_box_scores [scenario_segment] []) = 1
   \<and> 0 \<le> fst (bounding_box_scores [scenario_segment] [scenario_segment])
   \<and> fst (bounding_box_scores [scenario_segment] [scenario_segment]) \<le> 1"
proof -
  have a: "\<forall>a \<in> set [scenario_segment]. valid_segment a"
    by (simp add: valid_scenario_segment)
  have m: "\<forall>m \<in> set ([]::segment list). valid_segment m" by simp
  from bounding_box_scores_bounds [OF a m]
  have "fst (bounding_box_scores [scenario_segment] []) = 0"
    and "snd (bounding_box_scores [scenario_segment] []) = 1"
    by simp_all
  moreover from bounding_box_scores_bounds [OF a a]
  have "0 \<le> fst (bounding_box_scores [scenario_segment] [scenario_segment])"
    and "fst (bounding_box_scores [scenario_segment] [scenario_segment]) \<le> 1"
    by blast+
  ultimately show ?thesis using valid_scenario_segment by blast
qed

section \<open>Floating-point arithmetic: properties\<close>

text \<open>
  The rounding leaves an integer alone, moves a real by at most half a unit in the last
  place, which is a relative error of at most \<open>2^-53\<close>, keeps the sign, and is the identity
  on every number \<open>m * 2^k\<close> with \<open>\<bar>m\<bar> < 2^53\<close>.
\<close>

lemma round_half_even_of_int: "round_half_even (of_int m) = m"
  by (simp add: round_half_even_def)

lemma round_half_even_error: "\<bar>of_int (round_half_even y) - y\<bar> \<le> 1 / 2"
proof -
  define f where "f = \<lfloor>y\<rfloor>"
  have b: "of_int f \<le> y" "y < of_int f + 1" unfolding f_def by linarith+
  consider "y - of_int f < 1 / 2" | "1 / 2 < y - of_int f" | "y - of_int f = 1 / 2" by linarith
  then show ?thesis
  proof cases
    case 1
    then have "round_half_even y = f" by (simp add: round_half_even_def f_def)
    with 1 b show ?thesis by simp
  next
    case 2
    then have "round_half_even y = f + 1" by (simp add: round_half_even_def f_def)
    with 2 b show ?thesis by simp
  next
    case 3
    then have "round_half_even y = f \<or> round_half_even y = f + 1"
      by (simp add: round_half_even_def f_def Let_def)
    with 3 show ?thesis by auto
  qed
qed

lemma binade_bounds:
  assumes "x \<noteq> 0"
  shows "2 powr of_int \<lfloor>log 2 \<bar>x\<bar>\<rfloor> \<le> \<bar>x\<bar>" "\<bar>x\<bar> < 2 powr (of_int \<lfloor>log 2 \<bar>x\<bar>\<rfloor> + 1)"
proof -
  have p: "0 < \<bar>x\<bar>" using assms by simp
  have "of_int \<lfloor>log 2 \<bar>x\<bar>\<rfloor> \<le> log 2 \<bar>x\<bar>" by simp
  then show "2 powr of_int \<lfloor>log 2 \<bar>x\<bar>\<rfloor> \<le> \<bar>x\<bar>"
    using p le_log_iff [of 2 "\<bar>x\<bar>" "of_int \<lfloor>log 2 \<bar>x\<bar>\<rfloor>"] by simp
  have "log 2 \<bar>x\<bar> < of_int \<lfloor>log 2 \<bar>x\<bar>\<rfloor> + 1" by linarith
  then show "\<bar>x\<bar> < 2 powr (of_int \<lfloor>log 2 \<bar>x\<bar>\<rfloor> + 1)"
    using p log_less_iff [of 2 "\<bar>x\<bar>" "of_int \<lfloor>log 2 \<bar>x\<bar>\<rfloor> + 1"] by simp
qed

lemma binade_unique:
  assumes "2 powr of_int e \<le> \<bar>x\<bar>" "\<bar>x\<bar> < 2 powr (of_int e + 1)"
  shows "\<lfloor>log 2 \<bar>x\<bar>\<rfloor> = e"
proof -
  have p: "0 < \<bar>x\<bar>"
    using assms(1) powr_gt_zero [of 2 "of_int e"] by linarith
  have "of_int e \<le> log 2 \<bar>x\<bar>"
    using assms(1) p le_log_iff [of 2 "\<bar>x\<bar>" "of_int e"] by simp
  moreover have "log 2 \<bar>x\<bar> < of_int e + 1"
    using assms(2) p log_less_iff [of 2 "\<bar>x\<bar>" "of_int e + 1"] by simp
  ultimately show ?thesis by (rule floor_unique)
qed

lemma fl_zero: "fl 0 = 0"
  by (simp add: fl_def)

lemma fl_error: "\<bar>fl x - x\<bar> \<le> \<bar>x\<bar> / 2 ^ 53"
proof (cases "x = 0")
  case True
  then show ?thesis by (simp add: fl_def)
next
  case False
  define e where "e = \<lfloor>log 2 \<bar>x\<bar>\<rfloor>"
  define ulp :: real where "ulp = 2 powr (of_int e - 52)"
  have up: "0 < ulp" by (simp add: ulp_def)
  have f: "fl x = of_int (round_half_even (x / ulp)) * ulp"
    using False by (simp add: fl_def Let_def ulp_def e_def)
  have "fl x - x = (of_int (round_half_even (x / ulp)) - x / ulp) * ulp"
    using up by (simp add: f algebra_simps)
  then have "\<bar>fl x - x\<bar> = \<bar>of_int (round_half_even (x / ulp)) - x / ulp\<bar> * ulp"
    using up by (simp add: abs_mult)
  also have "\<dots> \<le> 1 / 2 * ulp"
    using up round_half_even_error [of "x / ulp"] by (intro mult_right_mono) simp_all
  also have "1 / 2 * ulp = 2 powr of_int e / 2 ^ 53"
    by (simp add: ulp_def powr_diff)
  also have "\<dots> \<le> \<bar>x\<bar> / 2 ^ 53"
    using binade_bounds(1) [OF False] by (simp add: e_def divide_right_mono)
  finally show ?thesis .
qed

lemma fl_nonneg: "0 \<le> x \<Longrightarrow> 0 \<le> fl x"
  using fl_error [of x] by (simp add: abs_if split: if_splits)

lemma fl_nonpos: "x \<le> 0 \<Longrightarrow> fl x \<le> 0"
  using fl_error [of x] by (simp add: abs_if split: if_splits)

lemma fl_exact:
  assumes "\<bar>m\<bar> < 2 ^ 53"
  shows "fl (of_int m * 2 powr of_int k) = of_int m * 2 powr of_int k"
proof (cases "m = 0")
  case True
  then show ?thesis by (simp add: fl_def)
next
  case False
  define x :: real where "x = of_int m * 2 powr of_int k"
  have x0: "x \<noteq> 0" using False by (simp add: x_def)
  define e where "e = \<lfloor>log 2 \<bar>x\<bar>\<rfloor>"
  define ulp :: real where "ulp = 2 powr (of_int e - 52)"
  have up: "0 < ulp" by (simp add: ulp_def)
  have "2 powr of_int e \<le> \<bar>x\<bar>" using binade_bounds(1) [OF x0] by (simp add: e_def)
  also have "\<bar>x\<bar> = \<bar>of_int m\<bar> * 2 powr of_int k" by (simp add: x_def abs_mult)
  also have "\<dots> < 2 ^ 53 * 2 powr of_int k"
  proof (rule mult_strict_right_mono)
    have "real_of_int \<bar>m\<bar> < real_of_int (2 ^ 53)" using assms by (simp only: of_int_less_iff)
    then show "\<bar>real_of_int m\<bar> < 2 ^ 53" by simp
  qed simp
  also have "\<dots> = 2 powr (53 + of_int k)"
    by (simp add: powr_add)
  finally have "of_int e < (53::real) + of_int k" by simp
  then have "e < 53 + k" by linarith
  then have "0 \<le> k + 52 - e" by simp
  then obtain j :: nat where j: "int j = k + 52 - e"
    using nat_0_le by blast
  have "2 powr of_int k / ulp = 2 powr (of_int k - (of_int e - 52))"
    by (simp add: ulp_def powr_diff)
  also have "of_int k - (of_int e - 52) = real j"
  proof -
    have "real j = of_int (int j)" by simp
    also have "\<dots> = of_int (k + 52 - e)" by (simp only: j)
    finally show ?thesis by simp
  qed
  also have "2 powr real j = 2 ^ j" by (simp add: powr_realpow)
  finally have q: "2 powr of_int k / ulp = 2 ^ j" .
  have "x / ulp = of_int m * (2 powr of_int k / ulp)" by (simp add: x_def)
  also have "\<dots> = of_int (m * 2 ^ j)" by (simp add: q)
  finally have "round_half_even (x / ulp) = m * 2 ^ j"
    by (simp only: round_half_even_of_int)
  then have "fl x = of_int (m * 2 ^ j) * ulp"
    using x0 by (simp add: fl_def Let_def ulp_def e_def)
  also have "\<dots> = of_int m * (2 ^ j * ulp)" by simp
  also have "2 ^ j * ulp = 2 powr of_int k"
    using q up by (simp add: field_simps)
  finally show ?thesis by (simp add: x_def)
qed

lemma fl_of_int: "\<bar>n\<bar> < 2 ^ 53 \<Longrightarrow> fl (of_int n) = of_int n"
  using fl_exact [of n 0] by simp

lemma fl_dyadic: "\<bar>m\<bar> < 2 ^ 53 \<Longrightarrow> fl (of_int m / 2 ^ j) = of_int m / 2 ^ j"
  using fl_exact [of m "- int j"] by (simp add: powr_minus powr_realpow divide_inverse)

lemma fl_eval:
  assumes "2 ^ n \<le> \<bar>x\<bar>" "\<bar>x\<bar> < 2 * 2 ^ n"
  shows "fl x = of_int (round_half_even (x * 2 ^ 52 / 2 ^ n)) * 2 ^ n / 2 ^ 52"
proof -
  have "(0::real) < 2 ^ n" by simp
  with assms(1) have x0: "x \<noteq> 0" by linarith
  have e: "\<lfloor>log 2 \<bar>x\<bar>\<rfloor> = int n"
    using assms by (intro binade_unique) (simp_all add: powr_realpow powr_add)
  define ulp :: real where "ulp = 2 ^ n / 2 ^ 52"
  have u: "2 powr (of_int (int n) - 52) = ulp"
    by (simp add: powr_diff powr_realpow ulp_def)
  have "fl x = of_int (round_half_even (x / ulp)) * ulp"
    using x0 unfolding fl_def Let_def e u by simp
  also have "x / ulp = x * 2 ^ 52 / 2 ^ n" by (simp add: ulp_def)
  finally show ?thesis by (simp add: ulp_def)
qed

lemma fl_one: "fl 1 = 1"
  using fl_of_int [of 1] by simp

lemma float_of_int_small: "\<bar>n\<bar> < 2 ^ 53 \<Longrightarrow> float_of_int n = of_int n"
  by (simp add: float_of_int_def fl_of_int)

lemma float_of_int_sign: "0 \<le> n \<Longrightarrow> 0 \<le> float_of_int n"
  by (simp add: float_of_int_def fl_nonneg)

lemma fmul_sign:
  "0 \<le> x * y \<Longrightarrow> 0 \<le> fmul x y"
  "x * y \<le> 0 \<Longrightarrow> fmul x y \<le> 0"
  by (simp_all add: fmul_def fl_nonneg fl_nonpos)

lemma fmul_int_one: "\<bar>n\<bar> < 2 ^ 53 \<Longrightarrow> fmul (float_of_int n) 1 = of_int n"
  by (simp add: fmul_def float_of_int_small fl_of_int)

lemma fl_upper: "0 \<le> y \<Longrightarrow> fl y \<le> y + y / 2 ^ 53"
  using fl_error [of y] by (simp add: abs_if split: if_splits)

lemma fl_lower: "0 \<le> y \<Longrightarrow> y - y / 2 ^ 53 \<le> fl y"
  using fl_error [of y] by (simp add: abs_if split: if_splits)

text \<open>
  The two float products of the annotation pass, for the covered and for the missing
  seconds of a query interval of length \<open>Q\<close>, add up to less than one more than the float
  product for \<open>Q\<close>, as long as the lengths stay below \<open>2^51\<close>.
\<close>

lemma float_sum_bound:
  fixes t :: real and x Q L :: int
  assumes x: "0 \<le> x" "x \<le> Q" and Q: "Q < 2 ^ 51" and L: "L < 2 ^ 51" and t: "0 \<le> t"
    and h: "fmul (float_of_int Q) t \<le> of_int L + 1"
  shows "fmul (float_of_int x) t + fmul (float_of_int (Q - x)) t < of_int L + 2"
proof -
  have small: "\<bar>x\<bar> < 2 ^ 53" "\<bar>Q - x\<bar> < 2 ^ 53" "\<bar>Q\<bar> < 2 ^ 53"
    using x Q by simp_all
  define r where "r = of_int x * t"
  define s where "s = of_int (Q - x) * t"
  define w where "w = of_int Q * t"
  have rs: "r + s = w" by (simp add: r_def s_def w_def algebra_simps)
  have nn: "0 \<le> r" "0 \<le> s"
    using x t by (simp_all add: r_def s_def)
  have p: "fmul (float_of_int x) t = fl r" "fmul (float_of_int (Q - x)) t = fl s"
    "fmul (float_of_int Q) t = fl w"
    unfolding fmul_def float_of_int_small [OF small(1)] float_of_int_small [OF small(2)]
      float_of_int_small [OF small(3)] r_def s_def w_def
    by (rule refl)+
  from L have "L + 1 \<le> 2251799813685248" by simp
  then have "real_of_int (L + 1) \<le> real_of_int 2251799813685248"
    by (simp only: of_int_le_iff)
  then have B: "real_of_int L + 1 \<le> 2251799813685248" by simp
  have w0: "0 \<le> w" using nn rs by linarith
  have lo: "w - w / 9007199254740992 \<le> real_of_int L + 1"
    using fl_lower [OF w0] h unfolding p by simp
  have up: "fl r + fl s \<le> w + w / 9007199254740992"
    using fl_upper [OF nn(1)] fl_upper [OF nn(2)] rs by (simp add: add_divide_distrib [symmetric])
  from lo B have "w < 4503599627370496" by linarith
  with lo up have "fl r + fl s < real_of_int L + 2" by linarith
  then show ?thesis unfolding p .
qed

section \<open>Length-weighted evaluator: the annotation pass\<close>

lemma length_diff:
  assumes "wf_interval a" "wf_interval u" "cells u \<subseteq> cells a"
  shows "get_interval_length (interval_diff a u) = get_interval_length a - get_interval_length u"
proof -
  have "card (cells a - cells u) = card (cells a) - card (cells u)"
    using assms(3) by (intro card_Diff_subset) simp_all
  moreover have "card (cells u) \<le> card (cells a)"
    using assms(3) by (intro card_mono) simp_all
  ultimately show ?thesis
    using assms(1,2) by (simp add: length_card_cells wf_interval_diff)
qed

lemma round_towards_target_le_ceiling: "round_towards_target v target \<le> \<lceil>v\<rceil>"
  by (simp add: round_towards_target_def floor_le_ceiling)

lemma round_towards_zero_nonneg: "0 \<le> v \<Longrightarrow> real_of_int (round_towards_target v 0) \<le> v"
  by (simp add: round_towards_target_def)

lemma round_towards_target_nonpos: "v \<le> 0 \<Longrightarrow> round_towards_target v target \<le> 0"
  unfolding round_towards_target_def
  by (auto simp: ceiling_le_iff floor_le_iff)

lemma rounded_sum_bound:
  fixes r s :: real
  assumes "0 \<le> s"
  shows "round_towards_target r target + round_towards_target s 0 \<le> \<lceil>r + s\<rceil>"
proof -
  have "real_of_int (round_towards_target r target) < r + 1"
    using round_towards_target_le_ceiling [of r target] by linarith
  moreover have "real_of_int (round_towards_target s 0) \<le> s"
    using assms by (rule round_towards_zero_nonneg)
  ultimately have "real_of_int (round_towards_target r target + round_towards_target s 0) < r + s + 1"
    by simp
  then show ?thesis by linarith
qed

text \<open>
  The sum of the two contributions of an annotation segment is at most the length of its
  reference interval, or at most the rounded-up sum of the two float products of the
  pass.
\<close>

lemma annotation_pass_bound:
  assumes v: "valid_segment a"
    and u: "wf_interval (fst unions)" "wf_interval (snd unions)"
      "cells (fst unions) \<subseteq> cells (reference_interval a)"
      "cells (snd unions) \<subseteq> cells (query_interval a)"
  shows "fst (annotation_pass a unions) + snd (annotation_pass a unions)
           \<le> max (get_interval_length (reference_interval a))
                 \<lceil>fmul (float_of_int (get_interval_length (snd unions))) (tempo_ratio a)
                  + fmul (float_of_int (get_interval_length (query_interval a)
                                         - get_interval_length (snd unions))) (tempo_ratio a)\<rceil>"
    and "0 \<le> get_interval_length (snd unions)"
    and "get_interval_length (snd unions) \<le> get_interval_length (query_interval a)"
    and "0 \<le> get_interval_length (reference_interval a)"
proof -
  define L where "L = get_interval_length (reference_interval a)"
  define Q where "Q = get_interval_length (query_interval a)"
  define t where "t = tempo_ratio a"
  define oref where "oref = get_interval_length (fst unions)"
  define x where "x = get_interval_length (snd unions)"
  from v have wa: "wf_interval (reference_interval a)" "wf_interval (query_interval a)"
    by (simp_all add: valid_segment_def)
  have mr: "get_interval_length (interval_diff (reference_interval a) (fst unions)) = L - oref"
    unfolding L_def oref_def by (rule length_diff [OF wa(1) u(1) u(3)])
  have mq: "get_interval_length (interval_diff (query_interval a) (snd unions)) = Q - x"
    unfolding Q_def x_def by (rule length_diff [OF wa(2) u(2) u(4)])
  have xs: "0 \<le> x" "x \<le> Q" "0 \<le> oref" "oref \<le> L"
    unfolding x_def Q_def oref_def L_def
    using u wa by (simp_all add: length_nonneg length_mono)
  from xs show "0 \<le> get_interval_length (snd unions)"
    and "get_interval_length (snd unions) \<le> get_interval_length (query_interval a)"
    and "0 \<le> get_interval_length (reference_interval a)"
    unfolding x_def Q_def L_def by simp_all
  define r where "r = fmul (float_of_int x) t"
  define s where "s = fmul (float_of_int (Q - x)) t"
  define g where "g = round_towards_target r (real_of_int L)"
  define f where "f = round_towards_target s 0"
  have tp: "fst (annotation_pass a unions) = min oref g"
    and fn: "snd (annotation_pass a unions) = max (L - oref) f"
    by (simp_all add: annotation_pass_def Let_def mr mq
        L_def [symmetric] oref_def [symmetric] x_def [symmetric] t_def [symmetric] g_def f_def
        r_def s_def)
  have "min oref g + max (L - oref) f \<le> max L \<lceil>r + s\<rceil>"
  proof (cases "f \<le> L - oref")
    case True
    then have "min oref g + max (L - oref) f \<le> L" by simp
    then show ?thesis by simp
  next
    case False
    then have m: "max (L - oref) f = f" by simp
    show ?thesis
    proof (cases "0 \<le> s")
      case True
      have "g + f \<le> \<lceil>r + s\<rceil>"
        unfolding g_def f_def by (rule rounded_sum_bound [OF True])
      then show ?thesis unfolding m by simp
    next
      case neg: False
      have fx: "0 \<le> float_of_int x" "0 \<le> float_of_int (Q - x)"
        using xs by (simp_all add: float_of_int_sign)
      have "t < 0"
      proof (rule ccontr)
        assume "\<not> t < 0"
        then have "0 \<le> float_of_int (Q - x) * t" using fx by simp
        then have "0 \<le> s" unfolding s_def by (rule fmul_sign)
        with neg show False by simp
      qed
      with fx have "float_of_int x * t \<le> 0"
        by (simp add: mult_nonneg_nonpos)
      then have "r \<le> 0" unfolding r_def by (rule fmul_sign)
      then have "g \<le> 0" unfolding g_def by (rule round_towards_target_nonpos)
      moreover from neg have "f \<le> 0"
        unfolding f_def by (intro round_towards_target_nonpos) simp
      ultimately have "min oref g + f \<le> 0" by simp
      with xs show ?thesis unfolding m by simp
    qed
  qed
  then show "fst (annotation_pass a unions) + snd (annotation_pass a unions)
           \<le> max (get_interval_length (reference_interval a))
                 \<lceil>fmul (float_of_int (get_interval_length (snd unions))) (tempo_ratio a)
                  + fmul (float_of_int (get_interval_length (query_interval a)
                                         - get_interval_length (snd unions))) (tempo_ratio a)\<rceil>"
    unfolding tp fn L_def Q_def t_def r_def s_def x_def .
qed

lemma length_closedopen:
  "get_interval_length (closedopen l u) = (if l < u then u - l else 0)"
  by (simp add: get_interval_length_def closedopen_def)

lemma length_empty_interval: "get_interval_length empty_interval = 0"
  by (simp add: get_interval_length_def empty_interval_def)

lemma interval_diff_empty: "interval_diff a empty_interval = a"
  by (simp add: interval_diff_def empty_interval_def)

lemma column_unions_no_match: "column_unions ovs 0 a = (empty_interval, empty_interval)"
  by (simp add: column_unions_def)

lemmas eval_int_item = int_item_def get_item_as_int_def dict_get_def re_match_int_def
  strip_sign_def is_digit_def py_int_def decimal_value_def digit_value_def
  FIELD_ANNOTATION_TEMPO_def

lemma scenario_fields:
  "reference_interval scenario_segment = closedopen 10 20"
  "query_interval scenario_segment = closedopen 0 10"
  by (simp_all add: scenario_segment_def)

lemma scenario_tempo: "tempo_ratio scenario_segment = 1"
  by (simp add: scenario_segment_def tempo_ratio_def int_true_div_def fl_one eval_int_item)

lemma stretched_fields:
  "reference_interval stretched_segment = closedopen 0 10"
  "query_interval stretched_segment = closedopen 0 100"
  by (simp_all add: stretched_segment_def)

lemma stretched_tempo: "tempo_ratio stretched_segment = 1"
  by (simp add: stretched_segment_def tempo_ratio_def int_true_div_def fl_one eval_int_item)

lemma stretched_pass:
  "annotation_pass stretched_segment (empty_interval, empty_interval) = (0, 100)"
  by (simp add: annotation_pass_def Let_def stretched_tempo stretched_fields
      length_empty_interval interval_diff_empty length_closedopen fmul_int_one
      round_towards_target_def)

text \<open>
  The segment at tempo 110 with a match on its first 56 reference seconds and its first 50
  query seconds. The float of its tempo ratio is \<open>4953959590107546 / 2^52\<close>; the float
  product with 50 is \<open>7740561859543041 / 2^47\<close>, above 55, and the float products with
  70 and with 120 are 77 and 132.
\<close>

lemma fast_fields:
  "reference_interval fast_segment = closedopen 0 131"
  "query_interval fast_segment = closedopen 0 120"
  "reference_interval partial_match_segment = closedopen 0 56"
  "query_interval partial_match_segment = closedopen 0 50"
  by (simp_all add: fast_segment_def partial_match_segment_def)

lemma fast_item: "int_item (params fast_segment) FIELD_ANNOTATION_TEMPO 100 = 110"
  by (simp add: fast_segment_def eval_int_item)

lemma fast_tempo: "tempo_ratio fast_segment = 4953959590107546 / 2 ^ 52"
  unfolding tempo_ratio_def fast_item int_true_div_def
  by (subst fl_eval [where n = 0]) (simp_all add: round_half_even_def)

lemma fast_product_50:
  "fmul (float_of_int 50) (tempo_ratio fast_segment) = 7740561859543041 / 2 ^ 47"
  unfolding fmul_def float_of_int_def fast_tempo
  by (subst fl_of_int, simp, subst fl_eval [where n = 5]) (simp_all add: round_half_even_def)

lemma fast_product_70: "fmul (float_of_int 70) (tempo_ratio fast_segment) = 77"
  unfolding fmul_def float_of_int_def fast_tempo
  by (subst fl_of_int, simp, subst fl_eval [where n = 6]) (simp_all add: round_half_even_def)

lemma fast_product_120: "fmul (float_of_int 120) (tempo_ratio fast_segment) = 132"
  unfolding fmul_def float_of_int_def fast_tempo
  by (subst fl_of_int, simp, subst fl_eval [where n = 7]) (simp_all add: round_half_even_def)

lemma fast_overlap:
  "overlap fast_segment partial_match_segment = (closedopen 0 56, closedopen 0 50)"
  by (simp add: overlap_def fast_fields interval_inter_def closedopen_def normalise_def)

lemma fast_unions:
  "add_double_overlap (closedopen 0 56, closedopen 0 50) (empty_interval, empty_interval) =
     (closedopen 0 56, closedopen 0 50)"
  by (simp add: add_double_overlap_def is_empty_def closedopen_def interval_union_def
      empty_interval_def normalise_def)

lemma fast_column:
  "column_unions (overlaps [fast_segment] [partial_match_segment]) (Suc 0) 0 =
     (closedopen 0 56, closedopen 0 50)"
  by (simp add: column_unions_def overlaps_def fast_overlap fast_unions)

lemma fast_diff:
  "interval_diff (closedopen 0 131) (closedopen 0 56) = closedopen 56 131"
  "interval_diff (closedopen 0 120) (closedopen 0 50) = closedopen 50 120"
  by (simp_all add: interval_diff_def closedopen_def sub_atomic_def normalise_def)

lemma fast_pass:
  "annotation_pass fast_segment (closedopen 0 56, closedopen 0 50) = (56, 77)"
  by (simp add: annotation_pass_def Let_def fast_fields fast_diff length_closedopen
      fast_product_50 fast_product_70 round_towards_target_def)

lemma fast_match_loop:
  "match_loop [fast_segment] (overlaps [fast_segment] [partial_match_segment]) 0 t =
     (FloatNum (tempo_ratio fast_segment), closedopen 0 56, closedopen 0 50)"
  by (simp add: match_loop_def match_step_def overlaps_def fast_overlap
      is_empty_def closedopen_def interval_union_def empty_interval_def normalise_def)

lemma fast_match_pass:
  "match_pass [fast_segment] (overlaps [fast_segment] [partial_match_segment])
     [partial_match_segment] 0 = (0, 0)"
  by (simp add: match_pass_def Let_def fast_match_loop fast_fields length_closedopen
      int_times_def fast_product_50 round_towards_target_def)

text \<open>
  Claim C4, as stated, bounds \<open>tp + fn\<close> of an annotation segment by its reference length
  plus 1. Two things break the bound. The false-negative length is the larger of the two
  axes' missing lengths, and nothing ties the query interval of a row to its reference
  interval: for the segment with reference \<open>[0, 10)\<close> and query \<open>[0, 100)\<close> and no match,
  \<open>tp + fn = 100\<close>. And the two scaled lengths are float products that are rounded to
  integers separately: for the segment at tempo 110 with reference length 131 and query
  length 120, whose scaled query length \<^verbatim>\<open>120 * 1.1\<close> is the float 132, a match on 56
  reference seconds and 50 query seconds gives \<open>tp = 56\<close> (the float \<^verbatim>\<open>50 * 1.1\<close> is above
  55 and is rounded up) and \<open>fn = 77\<close>, so \<open>tp + fn = 133\<close>.
\<close>

theorem length_tp_fn_counterexample:
  "fst (annotation_pass stretched_segment
          (column_unions (overlaps [stretched_segment] []) (length ([]::segment list)) 0))
   + snd (annotation_pass stretched_segment
          (column_unions (overlaps [stretched_segment] []) (length ([]::segment list)) 0)) = 100
   \<and> get_interval_length (reference_interval stretched_segment) = 10
   \<and> LengthSegmentEvaluator_counts [stretched_segment] [] = (0, 0, 0, 100)
   \<and> fst (annotation_pass fast_segment
          (column_unions (overlaps [fast_segment] [partial_match_segment])
             (length [partial_match_segment]) 0))
     + snd (annotation_pass fast_segment
          (column_unions (overlaps [fast_segment] [partial_match_segment])
             (length [partial_match_segment]) 0)) = 133
   \<and> get_interval_length (reference_interval fast_segment) = 131
   \<and> fmul (float_of_int (get_interval_length (query_interval fast_segment)))
        (tempo_ratio fast_segment) = 132
   \<and> LengthSegmentEvaluator_counts [fast_segment] [partial_match_segment] = (56, 0, 0, 77)"
  by (simp add: LengthSegmentEvaluator_counts_def Let_def column_unions_no_match
      stretched_pass stretched_fields length_closedopen fast_column fast_pass fast_fields
      fast_product_120 fast_match_pass)

text \<open>
  Claim C4, amended. For every valid annotation segment that
  \<^verbatim>\<open>LengthSegmentEvaluator._evaluate_pair\<close> processes, with \<open>tp + fn\<close> the sum of its
  true-positive and its false-negative contribution, \<open>L\<close> the length of its reference
  interval and \<open>Q\<close> the length of its query interval:

  \<^item> when the scaled query length, the float product of \<open>Q\<close> and the tempo ratio, is at
    most \<open>L + 1\<close> and both lengths are below \<open>2^51\<close>, \<open>tp + fn\<close> never exceeds \<open>L\<close> by more
    than 2;

  \<^item> when the two float products of the pass, of the tempo ratio with the number of
    covered and with the number of missing query seconds, carry no rounding error,
    \<open>tp + fn\<close> never exceeds the larger of \<open>L\<close> and the product of \<open>Q\<close> and the tempo ratio
    rounded up, so it never exceeds \<open>L\<close> by more than 1 when that product is at most
    \<open>L + 1\<close>;

  \<^item> at tempo 100 the products carry no rounding error for \<open>Q\<close> below \<open>2^53\<close>, and
    \<open>tp + fn\<close> never exceeds the larger of \<open>L\<close> and \<open>Q\<close>.

  The contributions are the summands of \<open>tp\<close> and \<open>fn\<close>.
\<close>

theorem length_tp_fn_bound:
  assumes "i < length annotation" and "valid_segment (annotation ! i)"
  shows "(let a = annotation ! i;
              unions = column_unions (overlaps annotation match) (length match) i;
              tempo = tempo_ratio a;
              L = get_interval_length (reference_interval a);
              Q = get_interval_length (query_interval a);
              covered = get_interval_length (snd unions);
              tp_fn = fst (annotation_pass a unions) + snd (annotation_pass a unions)
          in (fmul (float_of_int Q) tempo \<le> of_int L + 1 \<and> L < 2 ^ 51 \<and> Q < 2 ^ 51
                \<longrightarrow> tp_fn \<le> L + 2)
           \<and> (fmul (float_of_int covered) tempo = of_int covered * tempo
                \<and> fmul (float_of_int (Q - covered)) tempo = of_int (Q - covered) * tempo
                \<longrightarrow> tp_fn \<le> max L \<lceil>of_int Q * tempo\<rceil>
                    \<and> (of_int Q * tempo \<le> of_int L + 1 \<longrightarrow> tp_fn \<le> L + 1))
           \<and> (int_item (params a) FIELD_ANNOTATION_TEMPO 100 = 100 \<and> Q < 2 ^ 53
                \<longrightarrow> tp_fn \<le> max L Q))
       \<and> fst (LengthSegmentEvaluator_counts annotation match) =
           (\<Sum>a\<leftarrow>[0..<length annotation]. fst (annotation_pass (annotation ! a)
                (column_unions (overlaps annotation match) (length match) a)))
       \<and> snd (snd (snd (LengthSegmentEvaluator_counts annotation match))) =
           (\<Sum>a\<leftarrow>[0..<length annotation]. snd (annotation_pass (annotation ! a)
                (column_unions (overlaps annotation match) (length match) a)))"
proof -
  define a where "a = annotation ! i"
  define unions where "unions = column_unions (overlaps annotation match) (length match) i"
  define t where "t = tempo_ratio a"
  define L where "L = get_interval_length (reference_interval a)"
  define Q where "Q = get_interval_length (query_interval a)"
  define x where "x = get_interval_length (snd unions)"
  define c where "c = fst (annotation_pass a unions) + snd (annotation_pass a unions)"
  note cu = column_unions_cells [OF assms(1), of match]
  have v: "valid_segment a" using assms(2) by (simp add: a_def)
  have u: "wf_interval (fst unions)" "wf_interval (snd unions)"
    "cells (fst unions) \<subseteq> cells (reference_interval a)"
    "cells (snd unions) \<subseteq> cells (query_interval a)"
    using cu by (auto simp: unions_def a_def)
  note b = annotation_pass_bound [OF v u]
  have bound: "c \<le> max L \<lceil>fmul (float_of_int x) t + fmul (float_of_int (Q - x)) t\<rceil>"
    using b(1) by (simp only: c_def L_def Q_def x_def t_def)
  have xs: "0 \<le> x" "x \<le> Q" "0 \<le> L"
    using b(2-4) by (simp_all only: x_def Q_def L_def)
  have robust: "c \<le> L + 2"
    if h: "fmul (float_of_int Q) t \<le> of_int L + 1" and s: "L < 2 ^ 51" "Q < 2 ^ 51"
  proof -
    have "fmul (float_of_int x) t + fmul (float_of_int (Q - x)) t < of_int L + 2"
    proof (cases "0 \<le> t")
      case True
      show ?thesis by (rule float_sum_bound [OF xs(1,2) s(2) s(1) True h])
    next
      case False
      have "0 \<le> float_of_int x" "0 \<le> float_of_int (Q - x)"
        using xs by (simp_all add: float_of_int_sign)
      with False have "float_of_int x * t \<le> 0" "float_of_int (Q - x) * t \<le> 0"
        by (simp_all add: mult_nonneg_nonpos)
      then have "fmul (float_of_int x) t \<le> 0" "fmul (float_of_int (Q - x)) t \<le> 0"
        by (simp_all add: fmul_sign)
      with xs(3) show ?thesis by simp
    qed
    then have "\<lceil>fmul (float_of_int x) t + fmul (float_of_int (Q - x)) t\<rceil> \<le> L + 2"
      by (simp add: ceiling_le_iff)
    with bound show ?thesis by simp
  qed
  have exact: "c \<le> max L \<lceil>of_int Q * t\<rceil>"
    if e: "fmul (float_of_int x) t = of_int x * t"
      "fmul (float_of_int (Q - x)) t = of_int (Q - x) * t"
  proof -
    have "fmul (float_of_int x) t + fmul (float_of_int (Q - x)) t = of_int Q * t"
      unfolding e by (simp add: algebra_simps)
    with bound show ?thesis by simp
  qed
  have exact1: "c \<le> L + 1"
    if e: "fmul (float_of_int x) t = of_int x * t"
      "fmul (float_of_int (Q - x)) t = of_int (Q - x) * t"
      and h: "of_int Q * t \<le> of_int L + 1"
  proof -
    from h have "\<lceil>of_int Q * t\<rceil> \<le> L + 1" by (simp add: ceiling_le_iff)
    with exact [OF e] show ?thesis by simp
  qed
  have plain: "c \<le> max L Q"
    if d: "int_item (params a) FIELD_ANNOTATION_TEMPO 100 = 100" and s: "Q < 2 ^ 53"
  proof -
    have t1: "t = 1" by (simp add: t_def tempo_ratio_def d int_true_div_def fl_one)
    have "\<bar>x\<bar> < 2 ^ 53" "\<bar>Q - x\<bar> < 2 ^ 53" using xs s by simp_all
    then have "fmul (float_of_int x) t = of_int x * t"
      "fmul (float_of_int (Q - x)) t = of_int (Q - x) * t"
      unfolding t1 by (simp_all add: fmul_int_one)
    from exact [OF this] show ?thesis by (simp add: t1)
  qed
  have sums: "fst (LengthSegmentEvaluator_counts annotation match) =
           (\<Sum>a\<leftarrow>[0..<length annotation]. fst (annotation_pass (annotation ! a)
                (column_unions (overlaps annotation match) (length match) a)))"
    "snd (snd (snd (LengthSegmentEvaluator_counts annotation match))) =
           (\<Sum>a\<leftarrow>[0..<length annotation]. snd (annotation_pass (annotation ! a)
                (column_unions (overlaps annotation match) (length match) a)))"
    by (simp_all add: LengthSegmentEvaluator_counts_def Let_def comp_def)
  have "(fmul (float_of_int Q) t \<le> of_int L + 1 \<and> L < 2 ^ 51 \<and> Q < 2 ^ 51 \<longrightarrow> c \<le> L + 2)
      \<and> (fmul (float_of_int x) t = of_int x * t
            \<and> fmul (float_of_int (Q - x)) t = of_int (Q - x) * t
          \<longrightarrow> c \<le> max L \<lceil>of_int Q * t\<rceil> \<and> (of_int Q * t \<le> of_int L + 1 \<longrightarrow> c \<le> L + 1))
      \<and> (int_item (params a) FIELD_ANNOTATION_TEMPO 100 = 100 \<and> Q < 2 ^ 53 \<longrightarrow> c \<le> max L Q)"
    using robust exact exact1 plain by blast
  then show ?thesis
    unfolding Let_def
    by (simp only: a_def [symmetric] unions_def [symmetric] t_def [symmetric]
        L_def [symmetric] Q_def [symmetric] x_def [symmetric] c_def [symmetric] sums)
qed

theorem length_tp_fn_bound_witness:
  "valid_segment ([fast_segment] ! 0)
   \<and> fmul (float_of_int (get_interval_length (query_interval ([fast_segment] ! 0))))
        (tempo_ratio ([fast_segment] ! 0))
      \<le> of_int (get_interval_length (reference_interval ([fast_segment] ! 0))) + 1
   \<and> fst (annotation_pass ([fast_segment] ! 0)
          (column_unions (overlaps [fast_segment] [partial_match_segment])
             (length [partial_match_segment]) 0))
     + snd (annotation_pass ([fast_segment] ! 0)
          (column_unions (overlaps [fast_segment] [partial_match_segment])
             (length [partial_match_segment]) 0))
      \<le> 133
   \<and> valid_segment ([scenario_segment] ! 0)
   \<and> int_item (params ([scenario_segment] ! 0)) FIELD_ANNOTATION_TEMPO 100 = 100
   \<and> fst (annotation_pass ([scenario_segment] ! 0)
          (column_unions (overlaps [scenario_segment] [scenario_segment]) (length [scenario_segment]) 0))
     + snd (annotation_pass ([scenario_segment] ! 0)
          (column_unions (overlaps [scenario_segment] [scenario_segment]) (length [scenario_segment]) 0))
      \<le> 10"
proof -
  have i: "0 < length [fast_segment]" "0 < length [scenario_segment]" by simp_all
  have vf: "valid_segment ([fast_segment] ! 0)"
    by (simp add: valid_segment_def fast_fields wf_closedopen)
  have vs: "valid_segment ([scenario_segment] ! 0)" by (simp add: valid_scenario_segment)
  have lf: "get_interval_length (reference_interval ([fast_segment] ! 0)) = 131"
    "get_interval_length (query_interval ([fast_segment] ! 0)) = 120"
    by (simp_all add: fast_fields length_closedopen)
  have hf: "fmul (float_of_int (get_interval_length (query_interval ([fast_segment] ! 0))))
        (tempo_ratio ([fast_segment] ! 0))
      \<le> of_int (get_interval_length (reference_interval ([fast_segment] ! 0))) + 1"
    unfolding lf by (simp add: fast_product_120)
  have ls: "get_interval_length (reference_interval ([scenario_segment] ! 0)) = 10"
    "get_interval_length (query_interval ([scenario_segment] ! 0)) = 10"
    by (simp_all add: scenario_fields length_closedopen)
  have ts: "int_item (params ([scenario_segment] ! 0)) FIELD_ANNOTATION_TEMPO 100 = 100"
    by (simp add: scenario_segment_def eval_int_item)
  have "fst (annotation_pass ([fast_segment] ! 0)
          (column_unions (overlaps [fast_segment] [partial_match_segment])
             (length [partial_match_segment]) 0))
     + snd (annotation_pass ([fast_segment] ! 0)
          (column_unions (overlaps [fast_segment] [partial_match_segment])
             (length [partial_match_segment]) 0))
      \<le> 133"
    using length_tp_fn_bound [OF i(1) vf, of "[partial_match_segment]", THEN conjunct1,
        unfolded Let_def, THEN conjunct1] hf
    unfolding lf by simp
  moreover have "fst (annotation_pass ([scenario_segment] ! 0)
          (column_unions (overlaps [scenario_segment] [scenario_segment]) (length [scenario_segment]) 0))
     + snd (annotation_pass ([scenario_segment] ! 0)
          (column_unions (overlaps [scenario_segment] [scenario_segment]) (length [scenario_segment]) 0))
      \<le> 10"
    using length_tp_fn_bound [OF i(2) vs, of "[scenario_segment]", THEN conjunct1,
        unfolded Let_def, THEN conjunct2, THEN conjunct2] ts
    unfolding ls by simp
  ultimately show ?thesis using vf vs hf ts by blast
qed

section \<open>Length-weighted evaluator: the match pass\<close>

lemma match_loop_fold:
  assumes "m < length match"
  shows "match_loop annotation (overlaps annotation match) m tempo =
           fold (\<lambda>a. match_step a (overlap a (match ! m))) annotation
             (tempo, empty_interval, empty_interval)"
proof -
  have "fold (\<lambda>a. match_step (annotation ! a) (overlaps annotation match ! m ! a))
            [0..<length annotation] s =
        fold (\<lambda>a. match_step (annotation ! a) (overlap (annotation ! a) (match ! m)))
            [0..<length annotation] s"
    for s
    by (rule fold_cong) (simp_all add: overlaps_nth assms)
  then show ?thesis
    unfolding match_loop_def
    by (simp add: fold_index [where f = "\<lambda>a. match_step a (overlap a (match ! m))"])
qed

lemma match_step_overlap:
  "match_step a (overlap a m) (tempo, ur, uq) =
     (if cells (query_interval a) \<inter> cells (query_interval m) \<noteq> {}
      then FloatNum (tempo_ratio a) else tempo,
      if double_overlap a m then interval_union ur (fst (overlap a m)) else ur,
      interval_union uq (snd (overlap a m)))"
  by (simp add: match_step_def double_overlap_def wf_is_empty)

lemma fold_match_step:
  assumes "wf_interval ur" "wf_interval uq"
  shows "fold (\<lambda>a. match_step a (overlap a m)) annotation (tempo, ur, uq) = (tempo', ur', uq')
     \<Longrightarrow> tempo' = (if query_overlapping annotation m = [] then tempo
                    else FloatNum (tempo_ratio (last (query_overlapping annotation m))))
       \<and> wf_interval ur' \<and> wf_interval uq'
       \<and> cells ur' = cells ur \<union> (\<Union>a \<in> {a \<in> set annotation. double_overlap a m}.
              cells (reference_interval a) \<inter> cells (reference_interval m))
       \<and> cells uq' = cells uq \<union> (\<Union>a \<in> set annotation.
              cells (query_interval a) \<inter> cells (query_interval m))"
  using assms
proof (induction annotation arbitrary: tempo ur uq)
  case Nil
  then show ?case by (simp add: query_overlapping_def)
next
  case (Cons a annotation)
  let ?t = "if cells (query_interval a) \<inter> cells (query_interval m) \<noteq> {}
            then FloatNum (tempo_ratio a) else tempo"
  let ?r = "if double_overlap a m then interval_union ur (fst (overlap a m)) else ur"
  let ?q = "interval_union uq (snd (overlap a m))"
  from Cons.prems(1)
  have f: "fold (\<lambda>a. match_step a (overlap a m)) annotation (?t, ?r, ?q) = (tempo', ur', uq')"
    by (simp add: match_step_overlap)
  have w: "wf_interval ?r" "wf_interval ?q" using Cons.prems(2) by simp_all
  note ih = Cons.IH [OF f w]
  have t: "tempo' = (if query_overlapping (a # annotation) m = [] then tempo
                    else FloatNum (tempo_ratio (last (query_overlapping (a # annotation) m))))"
    using ih by (simp add: query_overlapping_def)
  have r: "cells ur' = cells ur \<union> (\<Union>a \<in> {x \<in> set (a # annotation). double_overlap x m}.
              cells (reference_interval a) \<inter> cells (reference_interval m))"
    using ih by (auto split: if_splits)
  have q: "cells uq' = cells uq \<union> (\<Union>a \<in> set (a # annotation).
              cells (query_interval a) \<inter> cells (query_interval m))"
    using ih by auto
  from ih t r q show ?case by blast
qed


text \<open>
  Claim C3. In the per-match pass of \<^verbatim>\<open>LengthSegmentEvaluator._evaluate_pair\<close>, for the
  match segment at index \<open>m\<close>: the tempo ratio is the tempo (per cent over 100, default
  100) of the last annotation segment, in list order, whose query interval shares seconds
  with the query interval of the match segment; when there is none it is the length of
  the match's reference interval divided by the length of its query interval, and 1 when
  the latter is 0. The unknown-positive contribution is the absolute difference between
  the length of the union of the reference overlaps with the doubly overlapping
  annotation segments and the length of the union of all query overlaps, scaled by that
  tempo and rounded toward the match's reference length. \<open>up\<close> is the sum of the
  contributions. The two divisions and the product are the float operations of the code.
\<close>

theorem unknown_positive_of_match:
  assumes "m < length match"
  shows "(let ms = match ! m;
              match_reference_length = get_interval_length (reference_interval ms);
              match_query_length = get_interval_length (query_interval ms);
              tempo = (if query_overlapping annotation ms = []
                       then (if match_query_length \<noteq> 0
                             then FloatNum (int_true_div match_reference_length match_query_length)
                             else IntNum 1)
                       else FloatNum (int_true_div
                              (int_item (params (last (query_overlapping annotation ms)))
                                 FIELD_ANNOTATION_TEMPO 100) 100));
              overlap_reference = (\<Union>a \<in> {a \<in> set annotation. double_overlap a ms}.
                  cells (reference_interval a) \<inter> cells (reference_interval ms));
              overlap_query_only = (\<Union>a \<in> set annotation.
                  cells (query_interval a) \<inter> cells (query_interval ms))
          in fst (match_pass annotation (overlaps annotation match) match m) =
               \<bar>int (card overlap_reference)
                 - round_towards_target (int_times (int (card overlap_query_only)) tempo)
                     (real_of_int match_reference_length)\<bar>)
       \<and> fst (snd (LengthSegmentEvaluator_counts annotation match)) =
           (\<Sum>m\<leftarrow>[0..<length match].
              fst (match_pass annotation (overlaps annotation match) match m))"
proof -
  define ms where "ms = match ! m"
  define mr where "mr = get_interval_length (reference_interval ms)"
  define mq where "mq = get_interval_length (query_interval ms)"
  define tempo0 where "tempo0 = (if mq \<noteq> 0 then FloatNum (int_true_div mr mq) else IntNum 1)"
  obtain tempo ur uq where l: "match_loop annotation (overlaps annotation match) m
      tempo0 = (tempo, ur, uq)"
    by (cases "match_loop annotation (overlaps annotation match) m tempo0")
  then have f: "fold (\<lambda>a. match_step a (overlap a ms)) annotation
      (tempo0, empty_interval, empty_interval) = (tempo, ur, uq)"
    by (simp add: match_loop_fold [OF assms] ms_def)
  note r = fold_match_step [OF _ _ f, simplified]
  have t: "tempo = (if query_overlapping annotation ms = []
                       then (if mq \<noteq> 0 then FloatNum (int_true_div mr mq) else IntNum 1)
                       else FloatNum (int_true_div
                              (int_item (params (last (query_overlapping annotation ms)))
                                 FIELD_ANNOTATION_TEMPO 100) 100))"
    using r by (simp add: tempo0_def tempo_ratio_def)
  have lr: "get_interval_length ur = int (card (\<Union>a \<in> {a \<in> set annotation. double_overlap a ms}.
                  cells (reference_interval a) \<inter> cells (reference_interval ms)))"
    using r by (simp add: length_card_cells)
  have lq: "get_interval_length uq = int (card (\<Union>a \<in> set annotation.
                  cells (query_interval a) \<inter> cells (query_interval ms)))"
    using r by (simp add: length_card_cells)
  have "fst (match_pass annotation (overlaps annotation match) match m) =
      \<bar>get_interval_length ur
        - round_towards_target (int_times (get_interval_length uq) tempo) (real_of_int mr)\<bar>"
    using l by (simp add: match_pass_def Let_def ms_def [symmetric] mr_def [symmetric]
        mq_def [symmetric] tempo0_def [symmetric])
  then have one: "fst (match_pass annotation (overlaps annotation match) match m) =
      \<bar>int (card (\<Union>a \<in> {a \<in> set annotation. double_overlap a ms}.
                  cells (reference_interval a) \<inter> cells (reference_interval ms)))
        - round_towards_target (int_times (int (card (\<Union>a \<in> set annotation.
                  cells (query_interval a) \<inter> cells (query_interval ms)))) tempo)
            (real_of_int mr)\<bar>"
    by (simp add: lr lq)
  have total: "fst (snd (LengthSegmentEvaluator_counts annotation match)) =
           (\<Sum>m\<leftarrow>[0..<length match].
              fst (match_pass annotation (overlaps annotation match) match m))"
    by (simp add: LengthSegmentEvaluator_counts_def Let_def comp_def)
  show ?thesis
    unfolding Let_def using one total
    by (simp only: ms_def [symmetric] mr_def [symmetric] mq_def [symmetric] t [symmetric])
qed


lemma half_tempo_fields:
  "reference_interval half_tempo_segment = closedopen 0 10"
  "query_interval half_tempo_segment = closedopen 0 20"
  "reference_interval late_match_segment = closedopen 5 12"
  "query_interval late_match_segment = closedopen 9 30"
  by (simp_all add: half_tempo_segment_def late_match_segment_def)

lemma half_tempo_item:
  "int_item (params half_tempo_segment) FIELD_ANNOTATION_TEMPO 100 = 50"
  by (simp add: half_tempo_segment_def eval_int_item)

lemma half_tempo_overlapping:
  "query_overlapping [half_tempo_segment] late_match_segment = [half_tempo_segment]"
  "double_overlap half_tempo_segment late_match_segment"
  by (simp_all add: query_overlapping_def double_overlap_def half_tempo_fields)

lemma half_tempo_product:
  "int_times 11 (FloatNum (int_true_div 50 100)) = 11 / 2"
proof -
  have t: "int_true_div 50 100 = 1 / 2"
    using fl_dyadic [of 1 1] by (simp add: int_true_div_def)
  have n: "float_of_int 11 = 11"
    using float_of_int_small [of 11] by simp
  have p: "fl (11 * (1 / 2)) = 11 / 2"
    using fl_dyadic [of 11 1] by simp
  show ?thesis
    unfolding int_times_def fmul_def pynum.case t n p by (rule refl)
qed

theorem unknown_positive_of_match_witness:
  "0 < length [late_match_segment]
   \<and> fst (match_pass [half_tempo_segment] (overlaps [half_tempo_segment] [late_match_segment])
            [late_match_segment] 0) = 1
   \<and> fst (snd (LengthSegmentEvaluator_counts [half_tempo_segment] [late_match_segment])) = 1"
proof -
  have m: "0 < length [late_match_segment]" by simp
  have c: "card ({0..<10} \<inter> {5..<12::int}) = 5" "card ({0..<20} \<inter> {9..<30::int}) = 11"
    by simp_all
  have r: "round_towards_target (11 / 2) 7 = 6"
    by (simp add: round_towards_target_def)
  from unknown_positive_of_match [OF m, of "[half_tempo_segment]"]
  have one: "fst (match_pass [half_tempo_segment]
      (overlaps [half_tempo_segment] [late_match_segment]) [late_match_segment] 0) = 1"
    and total: "fst (snd (LengthSegmentEvaluator_counts [half_tempo_segment] [late_match_segment])) =
      (\<Sum>m\<leftarrow>[0..<length [late_match_segment]].
          fst (match_pass [half_tempo_segment]
            (overlaps [half_tempo_segment] [late_match_segment]) [late_match_segment] m))"
    by (simp_all add: Let_def half_tempo_overlapping half_tempo_item half_tempo_fields
        length_closedopen c half_tempo_product r)
  from total one have "fst (snd (LengthSegmentEvaluator_counts [half_tempo_segment]
      [late_match_segment])) = 1"
    by simp
  with m one show ?thesis by blast
qed

section \<open>Accumulators as objects: the tags argument is only read\<close>

lemma RecallPrecisionResults_add_obj_cases:
  assumes "RecallPrecisionResults_add_obj self recall precision tags s = Some s'"
  obtains acc own arg where "accumulators s self = Some acc"
    and "collections s (a_tags acc) = Some (SetObj own)"
    and "collections s tags = Some arg"
    and "s' = s\<lparr>accumulators := (accumulators s)(self \<mapsto>
                          acc\<lparr>a_recalls := a_recalls acc @ [recall],
                              a_precisions := a_precisions acc @ [precision]\<rparr>),
                 collections := (collections s)(a_tags acc \<mapsto> SetObj (own \<union> elements arg))\<rparr>"
  using assms unfolding RecallPrecisionResults_add_obj_def
  by (auto split: option.splits collection.splits)

lemma RecallPrecisionResults_add_obj_frame:
  assumes "RecallPrecisionResults_add_obj self recall precision tags s = Some s'"
  shows "collections s' tags = collections s tags"
  using assms
proof (rule RecallPrecisionResults_add_obj_cases)
  fix acc own arg
  assume a: "collections s (a_tags acc) = Some (SetObj own)"
    and t: "collections s tags = Some arg"
    and s': "s' = s\<lparr>accumulators := (accumulators s)(self \<mapsto>
                          acc\<lparr>a_recalls := a_recalls acc @ [recall],
                              a_precisions := a_precisions acc @ [precision]\<rparr>),
                 collections := (collections s)(a_tags acc \<mapsto> SetObj (own \<union> elements arg))\<rparr>"
  show ?thesis
  proof (cases "a_tags acc = tags")
    case True
    with a t have "arg = SetObj own" by simp
    then show ?thesis using True a s' by (simp add: elements_def)
  next
    case False
    then show ?thesis using s' by simp
  qed
qed

lemma PositivesNegativesResults_add_obj_cases:
  assumes "PositivesNegativesResults_add_obj self tp up fp fn tags s = Some s'"
  obtains recall precision s1 where
    "RecallPrecisionResults_add_obj self recall precision tags s = Some s1"
    and "collections s' = collections s1"
    and "\<forall>i acc'. accumulators s' i = Some acc' \<longrightarrow>
           (\<exists>acc. accumulators s1 i = Some acc \<and> a_tags acc' = a_tags acc
              \<and> a_recalls acc' = a_recalls acc \<and> a_precisions acc' = a_precisions acc)"
    and "fresh s' = fresh s1"
  using assms unfolding PositivesNegativesResults_add_obj_def Let_def
  by (fastforce split: option.splits prod.splits if_splits)

lemma PositivesNegativesResults_add_obj_frame:
  assumes "PositivesNegativesResults_add_obj self tp up fp fn tags s = Some s'"
  shows "collections s' tags = collections s tags"
  using assms
  by (elim PositivesNegativesResults_add_obj_cases)
    (simp add: RecallPrecisionResults_add_obj_frame)


lemma RecallPrecisionResults_add_obj_value:
  assumes "RecallPrecisionResults_add_obj self recall precision tags s = Some s'"
  shows "\<exists>v arg. accumulator_value s self = Some v \<and> collections s tags = Some arg
           \<and> accumulator_value s' self =
               Some (RecallPrecisionResults_add recall precision (elements arg) v)"
  using assms
proof (rule RecallPrecisionResults_add_obj_cases)
  fix acc own arg
  assume "accumulators s self = Some acc" "collections s (a_tags acc) = Some (SetObj own)"
    "collections s tags = Some arg"
    "s' = s\<lparr>accumulators := (accumulators s)(self \<mapsto>
                          acc\<lparr>a_recalls := a_recalls acc @ [recall],
                              a_precisions := a_precisions acc @ [precision]\<rparr>),
                 collections := (collections s)(a_tags acc \<mapsto> SetObj (own \<union> elements arg))\<rparr>"
  then show ?thesis
    by (simp add: accumulator_value_def RecallPrecisionResults_add_def)
qed

lemma accumulator_value_tags:
  "accumulator_value s self = Some v \<Longrightarrow> accumulators s self = Some acc \<Longrightarrow>
     collections s (a_tags acc) = Some (SetObj (m_tags v))"
  by (auto simp: accumulator_value_def split: option.splits collection.splits)

lemma store_invariant_module: "store_invariant module_store"
  by (simp add: store_invariant_def module_store_def DEFAULT_TAGS_RP_def DEFAULT_TAGS_PN_def)

lemma store_invariant_new_collection:
  "store_invariant s \<Longrightarrow> store_invariant (new_collection c s)"
  unfolding store_invariant_def new_collection_def DEFAULT_TAGS_RP_def DEFAULT_TAGS_PN_def
  by (auto simp: less_Suc_eq)

lemma store_invariant_new_accumulator:
  "store_invariant s \<Longrightarrow> store_invariant (new_accumulator counts s)"
  unfolding store_invariant_def new_accumulator_def DEFAULT_TAGS_RP_def DEFAULT_TAGS_PN_def
  by (auto simp: less_Suc_eq)

lemma store_invariant_RP_add:
  assumes "store_invariant s"
    and "RecallPrecisionResults_add_obj self recall precision tags s = Some s'"
  shows "store_invariant s'"
  using assms(2)
proof (rule RecallPrecisionResults_add_obj_cases)
  fix acc own arg
  assume a: "accumulators s self = Some acc"
    and s': "s' = s\<lparr>accumulators := (accumulators s)(self \<mapsto>
                          acc\<lparr>a_recalls := a_recalls acc @ [recall],
                              a_precisions := a_precisions acc @ [precision]\<rparr>),
                 collections := (collections s)(a_tags acc \<mapsto> SetObj (own \<union> elements arg))\<rparr>"
  from assms(1) a have r: "2 \<le> a_tags acc" "a_tags acc < fresh s"
    by (auto simp: store_invariant_def)
  then have "a_tags acc \<noteq> DEFAULT_TAGS_RP" "a_tags acc \<noteq> DEFAULT_TAGS_PN"
    by (simp_all add: DEFAULT_TAGS_RP_def DEFAULT_TAGS_PN_def)
  with assms(1) r show ?thesis
    unfolding store_invariant_def s' by auto
qed

lemma store_invariant_PN_add:
  assumes "store_invariant s"
    and "PositivesNegativesResults_add_obj self tp up fp fn tags s = Some s'"
  shows "store_invariant s'"
  using assms(2)
proof (rule PositivesNegativesResults_add_obj_cases)
  fix recall precision s1
  assume 1: "RecallPrecisionResults_add_obj self recall precision tags s = Some s1"
    and c: "collections s' = collections s1"
    and a: "\<forall>i acc'. accumulators s' i = Some acc' \<longrightarrow>
           (\<exists>acc. accumulators s1 i = Some acc \<and> a_tags acc' = a_tags acc
              \<and> a_recalls acc' = a_recalls acc \<and> a_precisions acc' = a_precisions acc)"
    and f: "fresh s' = fresh s1"
  from store_invariant_RP_add [OF assms(1) 1] have i: "store_invariant s1" .
  show ?thesis
    unfolding store_invariant_def c f
  proof (intro conjI allI impI)
    show "collections s1 DEFAULT_TAGS_RP = Some (SetObj {})"
      "collections s1 DEFAULT_TAGS_PN = Some (SetObj {})" "2 \<le> fresh s1"
      using i by (simp_all add: store_invariant_def)
  next
    fix j acc' assume "accumulators s' j = Some acc'"
    with a obtain acc where "accumulators s1 j = Some acc" "a_tags acc' = a_tags acc" by blast
    with i show "2 \<le> a_tags acc'" "a_tags acc' < fresh s1"
      by (auto simp: store_invariant_def)
  qed
qed

lemma store_invariant_execute:
  "store_invariant s \<Longrightarrow> execute x s = Some s' \<Longrightarrow> store_invariant s'"
  by (cases x)
    (auto intro: store_invariant_new_collection store_invariant_new_accumulator
      store_invariant_RP_add store_invariant_PN_add)

lemma store_invariant_execute_all:
  "store_invariant s \<Longrightarrow> execute_all xs s = Some s' \<Longrightarrow> store_invariant s'"
proof (induction xs arbitrary: s)
  case Nil
  then show ?case by simp
next
  case (Cons x xs)
  from Cons.prems(2) obtain s1 where "execute x s = Some s1" "execute_all xs s1 = Some s'"
    by (auto split: option.splits)
  with Cons.IH store_invariant_execute [OF Cons.prems(1)] show ?case by blast
qed

lemma default_RP_adds_no_tag:
  assumes "store_invariant s"
    and "execute (AddRP self recall precision None) s = Some s'"
  shows "\<exists>v v'. accumulator_value s self = Some v \<and> accumulator_value s' self = Some v'
           \<and> m_tags v' = m_tags v"
proof -
  from assms(2) have a: "RecallPrecisionResults_add_obj self recall precision DEFAULT_TAGS_RP s = Some s'"
    by simp
  from assms(1) have "collections s DEFAULT_TAGS_RP = Some (SetObj {})"
    by (simp add: store_invariant_def)
  with RecallPrecisionResults_add_obj_value [OF a] show ?thesis
    by (auto simp: RecallPrecisionResults_add_def elements_def)
qed

lemma PositivesNegativesResults_add_obj_value:
  assumes "PositivesNegativesResults_add_obj self tp up fp fn tags s = Some s'"
  shows "\<exists>v v' arg. accumulator_value s self = Some v \<and> collections s tags = Some arg
           \<and> accumulator_value s' self = Some v' \<and> m_tags v' = m_tags v \<union> elements arg"
proof -
  from assms obtain recall precision s1 acc where
    1: "RecallPrecisionResults_add_obj self recall precision tags s = Some s1"
    and 2: "accumulators s1 self = Some acc"
    and 3: "\<exists>c. s' = s1\<lparr>accumulators := (accumulators s1)(self \<mapsto> acc\<lparr>a_counts := c\<rparr>)\<rparr>"
    unfolding PositivesNegativesResults_add_obj_def Let_def
    by (fastforce split: option.splits prod.splits)
  from RecallPrecisionResults_add_obj_value [OF 1] obtain v arg where
    v: "accumulator_value s self = Some v" "collections s tags = Some arg"
    "accumulator_value s1 self = Some (RecallPrecisionResults_add recall precision (elements arg) v)"
    by blast
  from v(3) 2 have "collections s1 (a_tags acc) = Some (SetObj (m_tags v \<union> elements arg))"
    by (auto simp: accumulator_value_tags RecallPrecisionResults_add_def)
  with 3 have "\<exists>v'. accumulator_value s' self = Some v' \<and> m_tags v' = m_tags v \<union> elements arg"
    by (auto simp: accumulator_value_def)
  with v show ?thesis by blast
qed

lemma default_PN_adds_no_tag:
  assumes "store_invariant s"
    and "execute (AddPN self tp up fp fn None) s = Some s'"
  shows "\<exists>v v'. accumulator_value s self = Some v \<and> accumulator_value s' self = Some v'
           \<and> m_tags v' = m_tags v"
proof -
  from assms(2) have a: "PositivesNegativesResults_add_obj self tp up fp fn DEFAULT_TAGS_PN s = Some s'"
    by simp
  from assms(1) have "collections s DEFAULT_TAGS_PN = Some (SetObj {})"
    by (simp add: store_invariant_def)
  with PositivesNegativesResults_add_obj_value [OF a] show ?thesis
    by (auto simp: elements_def)
qed


text \<open>
  Claim C10. Neither \<^verbatim>\<open>add\<close> changes the collection it receives as \<open>tags\<close>, whatever
  the store and whatever the argument, the accumulator's own set included. So in every
  store that a sequence of constructor calls and \<^verbatim>\<open>add\<close> calls reaches from the loaded
  module, the two default objects are still empty sets, and an \<^verbatim>\<open>add\<close> without the
  argument leaves the tags of its accumulator as they were, whatever tags earlier calls
  passed to any accumulator.
\<close>

theorem add_never_mutates_tags_argument:
  assumes "execute_all program module_store = Some s"
  shows "(RecallPrecisionResults_add_obj self recall precision tags s0 = Some s1
            \<longrightarrow> collections s1 tags = collections s0 tags)
       \<and> (PositivesNegativesResults_add_obj self tp up fp fn tags s0 = Some s2
            \<longrightarrow> collections s2 tags = collections s0 tags)
       \<and> collections s DEFAULT_TAGS_RP = Some (SetObj {})
       \<and> collections s DEFAULT_TAGS_PN = Some (SetObj {})
       \<and> (execute (AddRP self recall precision None) s = Some s3
            \<longrightarrow> (\<exists>v v'. accumulator_value s self = Some v \<and> accumulator_value s3 self = Some v'
                   \<and> m_tags v' = m_tags v))
       \<and> (execute (AddPN self tp up fp fn None) s = Some s4
            \<longrightarrow> (\<exists>v v'. accumulator_value s self = Some v \<and> accumulator_value s4 self = Some v'
                   \<and> m_tags v' = m_tags v))"
proof -
  have i: "store_invariant s"
    using store_invariant_module assms by (rule store_invariant_execute_all)
  then have "collections s DEFAULT_TAGS_RP = Some (SetObj {})"
    and "collections s DEFAULT_TAGS_PN = Some (SetObj {})"
    by (simp_all add: store_invariant_def)
  then show ?thesis
    using RecallPrecisionResults_add_obj_frame [of self recall precision tags s0 s1]
      PositivesNegativesResults_add_obj_frame [of self tp up fp fn tags s0 s2]
      default_RP_adds_no_tag [OF i, of self recall precision s3]
      default_PN_adds_no_tag [OF i, of self tp up fp fn s4]
    by blast
qed

lemma example_program_runs:
  "\<exists>s. execute_all [NewPositivesNegativesResults, NewCollection (SetObj {''TOTAL''}),
          AddPN 3 1 0 0 0 (Some 4), AddPN 3 0 0 0 1 None] module_store = Some s
       \<and> collections s 2 = Some (SetObj {''TOTAL''})"
  by (simp add: module_store_def new_accumulator_def new_collection_def
      PositivesNegativesResults_add_obj_def RecallPrecisionResults_add_obj_def
      DEFAULT_TAGS_RP_def DEFAULT_TAGS_PN_def elements_def Let_def)

theorem add_never_mutates_tags_argument_witness:
  "\<exists>s. execute_all [NewPositivesNegativesResults, NewCollection (SetObj {''TOTAL''}),
          AddPN 3 1 0 0 0 (Some 4), AddPN 3 0 0 0 1 None] module_store = Some s
       \<and> collections s 2 = Some (SetObj {''TOTAL''})
       \<and> collections s DEFAULT_TAGS_RP = Some (SetObj {})
       \<and> collections s DEFAULT_TAGS_PN = Some (SetObj {})"
proof -
  from example_program_runs obtain s
    where r: "execute_all [NewPositivesNegativesResults, NewCollection (SetObj {''TOTAL''}),
          AddPN 3 1 0 0 0 (Some 4), AddPN 3 0 0 0 1 None] module_store = Some s"
      and t: "collections s 2 = Some (SetObj {''TOTAL''})"
    by blast
  from add_never_mutates_tags_argument [OF r]
  have "collections s DEFAULT_TAGS_RP = Some (SetObj {})"
    and "collections s DEFAULT_TAGS_PN = Some (SetObj {})"
    by blast+
  with r t show ?thesis by blast
qed

section \<open>The scenario of the specification, evaluated\<close>

text \<open>
  Section 8 of the specification gives the scores of its scenario, an annotation segment
  and an identical match segment: the track-level count is one true positive, the
  bounding-box recall and precision are 1, and the length-weighted counts are
  \<open>tp = 10\<close>, \<open>up = fp = fn = 0\<close>. The embedding computes these values.
\<close>

lemma scenario_overlap:
  "overlap scenario_segment scenario_segment = (closedopen 10 20, closedopen 0 10)"
  by (simp add: overlap_def scenario_fields interval_inter_def closedopen_def normalise_def)

lemma scenario_unions:
  "add_double_overlap (closedopen 10 20, closedopen 0 10) (empty_interval, empty_interval) =
     (closedopen 10 20, closedopen 0 10)"
  by (simp add: add_double_overlap_def is_empty_def closedopen_def interval_union_def
      empty_interval_def normalise_def)

lemma scenario_column:
  "column_unions (overlaps [scenario_segment] [scenario_segment]) (Suc 0) 0 =
     (closedopen 10 20, closedopen 0 10)"
  "row_unions (overlaps [scenario_segment] [scenario_segment]) (Suc 0) 0 =
     (closedopen 10 20, closedopen 0 10)"
  by (simp_all add: column_unions_def row_unions_def overlaps_def scenario_overlap scenario_unions)

lemma scenario_bounding_box:
  "bounding_box_scores [scenario_segment] [scenario_segment] = (1, 1)"
  by (simp add: bounding_box_scores_def Let_def scenario_column scenario_fields
      length_closedopen ratio_or_def)

lemma scenario_diff: "interval_diff (closedopen l u) (closedopen l u) = empty_interval"
  by (simp add: interval_diff_def closedopen_def sub_atomic_def normalise_def empty_interval_def)

lemma scenario_annotation_pass:
  "annotation_pass scenario_segment (closedopen 10 20, closedopen 0 10) = (10, 0)"
  by (simp add: annotation_pass_def Let_def scenario_tempo scenario_fields scenario_diff
      length_closedopen length_empty_interval fmul_int_one round_towards_target_def)

lemma scenario_match_loop:
  "match_loop [scenario_segment] (overlaps [scenario_segment] [scenario_segment]) 0 t =
     (FloatNum 1, closedopen 10 20, closedopen 0 10)"
  by (simp add: match_loop_def match_step_def overlaps_def scenario_overlap scenario_tempo
      is_empty_def closedopen_def interval_union_def empty_interval_def normalise_def)

lemma scenario_match_pass:
  "match_pass [scenario_segment] (overlaps [scenario_segment] [scenario_segment])
     [scenario_segment] 0 = (0, 0)"
  by (simp add: match_pass_def Let_def scenario_match_loop scenario_fields length_closedopen
      int_times_def fmul_int_one round_towards_target_def)

lemma scenario_length_counts:
  "LengthSegmentEvaluator_counts [scenario_segment] [scenario_segment] = (10, 0, 0, 0)"
  by (simp add: LengthSegmentEvaluator_counts_def Let_def scenario_column
      scenario_annotation_pass scenario_match_pass)

lemma scenario_track_counts:
  "TrackEvaluator_counts [scenario_segment] [scenario_segment] = (1, 0, 0, 0)"
  "TrackEvaluator_counts [scenario_segment] [] = (0, 0, 0, 1)"
  by (simp_all add: TrackEvaluator_counts_def)

section \<open>Rows read from a file never make an evaluator raise\<close>

text \<open>
  The only exception in the embedded code is the TypeError of a string concatenation with
  a value that is not a string. On rows of strings and \<^verbatim>\<open>None\<close> the tag classifier
  returns its tags, and each of the three evaluators runs to the end. (The OverflowError
  of a float beyond \<open>1.8e308\<close>, which a tempo of several hundred digits would cause, is
  outside the embedding, as said with \<open>fl\<close>.)
\<close>

lemma csv_row_dict_get:
  "csv_row r \<Longrightarrow> dict_get r key (PyStr d) = PyNone \<or> (\<exists>s. dict_get r key (PyStr d) = PyStr s)"
  by (auto simp: csv_row_def dict_get_def split: option.splits)

lemma str_concat_truthy:
  "v = PyNone \<or> (\<exists>s. v = PyStr s) \<Longrightarrow> py_truthy v \<Longrightarrow> \<exists>t. str_concat p v = Inr t"
  by (auto simp: str_concat_def py_truthy_def)

lemma noise_tags_returns: "csv_row r \<Longrightarrow> \<exists>tags. noise_tags r = Inr tags"
  using csv_row_dict_get [of r FIELD_ANNOTATION_NOISE_COLOR "''''"]
  unfolding noise_tags_def Let_def
  by (auto simp: str_concat_def py_truthy_def)

lemma merge_tag_returns: "csv_row r \<Longrightarrow> \<exists>t. merge_tag r field d prefix = Inr t"
  using csv_row_dict_get [of r field d]
  unfolding merge_tag_def Let_def
  by (auto simp: str_concat_def py_truthy_def)

lemma get_tags_returns: "csv_row r \<Longrightarrow> \<exists>tags. get_tags_from_annotation r = Inr tags"
proof -
  assume r: "csv_row r"
  obtain n where n: "noise_tags r = Inr n" using noise_tags_returns [OF r] by blast
  obtain p where p: "merge_tag r FIELD_ANNOTATION_MERGE_PREV ''begin'' ''merge_prev:'' = Inr p"
    using merge_tag_returns [OF r] by blast
  obtain x where x: "merge_tag r FIELD_ANNOTATION_MERGE_NEXT ''end'' ''merge_next:'' = Inr x"
    using merge_tag_returns [OF r] by blast
  show ?thesis by (simp add: get_tags_from_annotation_def Let_def n p x)
qed

lemma tag_loop_returns:
  "\<forall>a \<in> set annotation. csv_row (params a) \<Longrightarrow> \<exists>t. tag_loop add new annotation table = Inr t"
proof (induction annotation arbitrary: table)
  case Nil
  then show ?case by simp
next
  case (Cons a annotation)
  from Cons.prems obtain tags where "get_tags_from_annotation (params a) = Inr tags"
    using get_tags_returns [of "params a"] by auto
  with Cons show ?case by simp
qed

lemma store_results_returns:
  assumes "\<forall>a \<in> set annotation. csv_row (params a)"
  shows "\<exists>self'. store_results add new pair annotation self = Inr self'"
proof -
  have "\<exists>tags. (case annotation of [] \<Rightarrow> Inr [] | a # _ \<Rightarrow> get_tags_from_annotation (params a))
      = Inr tags"
    using assms get_tags_returns by (cases annotation) auto
  then obtain tags where t: "(case annotation of [] \<Rightarrow> Inr []
      | a # _ \<Rightarrow> get_tags_from_annotation (params a)) = Inr tags" by blast
  obtain table where l: "tag_loop add new annotation (tag_results self) = Inr table"
    using tag_loop_returns [OF assms, of add new "tag_results self"] by blast
  show ?thesis unfolding store_results_def t l by simp
qed

lemma run_calls_returns:
  assumes "\<And>pair a m st. (pair, a, m) \<in> set calls \<Longrightarrow> \<exists>st'. f pair a m st = Inr st'"
  shows "\<exists>final. run_calls f calls self = Inr final"
  using assms
proof (induction calls arbitrary: self)
  case Nil
  then show ?case by simp
next
  case (Cons c calls)
  obtain pair a m where c: "c = (pair, a, m)" by (cases c)
  from Cons.prems [of pair a m self] c obtain st' where s: "f pair a m self = Inr st'" by auto
  have "\<exists>final. run_calls f calls st' = Inr final"
    by (rule Cons.IH) (use Cons.prems in auto)
  with s c show ?case by simp
qed

lemma evaluate_returns:
  assumes rows: "\<forall>(pair, annotation) \<in> set annotations. \<forall>a \<in> set annotation. csv_row (params a)"
    and stores: "\<And>pair a m st. \<exists>add. f pair a m st = store_results add new pair a st"
  shows "\<exists>final. evaluate f annotations matches self = Inr final"
  unfolding evaluate_run_calls
proof (rule run_calls_returns)
  fix pair a m st
  assume c: "(pair, a, m) \<in> set (evaluate_calls annotations matches)"
  have "a = [] \<or> (\<exists>p. (p, a) \<in> set annotations)"
  proof (cases "map_of annotations pair")
    case None
    with c show ?thesis
      by (auto simp: evaluate_calls_def get_or_empty_def)
  next
    case (Some xs)
    then have "(pair, xs) \<in> set annotations" by (rule map_of_SomeD)
    with c Some show ?thesis
      by (auto simp: evaluate_calls_def get_or_empty_def)
  qed
  with rows have r: "\<forall>x \<in> set a. csv_row (params x)" by auto
  from stores [of pair a m st] obtain add
    where "f pair a m st = store_results add new pair a st" by blast
  with store_results_returns [OF r, of add new pair st]
  show "\<exists>st'. f pair a m st = Inr st'" by simp
qed

lemma evaluators_return:
  assumes "\<forall>(pair, annotation) \<in> set annotations. \<forall>a \<in> set annotation. csv_row (params a)"
  shows "\<exists>final. evaluate TrackEvaluator_evaluate_pair annotations matches track = Inr final"
    and "\<exists>final. evaluate BoundingBoxSegmentEvaluator_evaluate_pair annotations matches box = Inr final"
    and "\<exists>final. evaluate LengthSegmentEvaluator_evaluate_pair annotations matches len = Inr final"
proof -
  show "\<exists>final. evaluate TrackEvaluator_evaluate_pair annotations matches track = Inr final"
    by (rule evaluate_returns [OF assms, where new = PositivesNegativesResults_init])
      (auto simp: TrackEvaluator_evaluate_pair_def split: prod.splits)
  show "\<exists>final. evaluate BoundingBoxSegmentEvaluator_evaluate_pair annotations matches box = Inr final"
    by (rule evaluate_returns [OF assms, where new = RecallPrecisionResults_init])
      (auto simp: BoundingBoxSegmentEvaluator_evaluate_pair_def split: prod.splits)
  show "\<exists>final. evaluate LengthSegmentEvaluator_evaluate_pair annotations matches len = Inr final"
    by (rule evaluate_returns [OF assms, where new = PositivesNegativesResults_init])
      (auto simp: LengthSegmentEvaluator_evaluate_pair_def split: prod.splits)
qed

end
